theory Spec2Isabelle
  imports Main "HOL-Library.Word" "HOL-Library.Finite_Map" "HOL-Library.Stream"
    "HOL-Library.Sublist"
begin

section \<open>The thread pool of \<^verbatim>\<open>include/reaver/thread_pool.h\<close>\<close>

text \<open>
  The class \<^verbatim>\<open>reaver::thread_pool\<close> is embedded as a record of its data members and one
  function per member function, each taking the pool and returning the pool it leaves
  behind. A leading underscore of a C++ name is written as the prefix \<open>u_\<close>
  (\<^verbatim>\<open>_size\<close> is \<open>u_size\<close>, \<^verbatim>\<open>_spawn\<close> is \<open>u_spawn\<close>).
  Every function of the pool below is the body of one critical section of the source, or
  a sequence of them run without another thread in between; where other threads come in
  between it is said. How the accesses that the source makes outside the lock (the
  constructor, lines 199, 269 and 283, the join loops) overlap with the accesses of other
  threads is the matter of the system of threads, further down.
\<close>

subsection \<open>Data\<close>

text \<open>
  \<^verbatim>\<open>std::thread::id\<close>: the default constructed value, which names no thread, and the
  identities of threads.
\<close>

datatype thread_id = No_thread | Thread nat

text \<open>
  Modelled from the spec: \<^verbatim>\<open>thread.h\<close> is not among the sources. The spec has a worker
  be a thread with an opaque, stable identity, and the registry hold one entry for each
  worker; the handle kept in the registry is modelled by the identity of its thread.
\<close>

datatype detaching_thread = Detaching_thread thread_id

text \<open>The three exceptions of the header.\<close>

datatype error = Thread_pool_closed | Free_affinities_exhausted | Invalid_affinity

text \<open>
  What the C++ standard leaves undefined and the code can reach: \<^verbatim>\<open>erase\<close> called with
  the end iterator of a container, the use of a reference to a destroyed element, and a
  data race on a container.
\<close>

datatype undefined_behaviour =
  Erase_end_affinities | Erase_end_threads | Dangling_queue | Data_race

text \<open>
  \<^verbatim>\<open>std::future\<close>: the handle on the shared state of the packaged task wrapping the
  callable.
\<close>

datatype 'f future = Future 'f

text \<open>\<^verbatim>\<open>std::size_t\<close> and \<^verbatim>\<open>uint64_t\<close>, both 64 bits wide, unsigned, wrapping.\<close>

type_synonym size_t = "64 word"

text \<open>
  The data members. A \<^verbatim>\<open>std::queue\<close> is the list of its elements, front first. The
  mutex and the condition variable have no content. \<^verbatim>\<open>_waiters\<close> is left out: its type
  is of \<^verbatim>\<open>callbacks.h\<close>, not among the sources, the member is private and nothing in the
  class adds a callback to it, so the hook the spec calls optional is never registered.
  The last field is not a member of the class: it counts the \<^verbatim>\<open>std::packaged_task\<close>
  objects that \<^verbatim>\<open>std::make_shared\<close> has constructed (lines 128 and 156), the effect of
  \<^verbatim>\<open>push\<close> on the heap.
\<close>

record 'f thread_pool =
  u_size :: size_t
  u_threads :: "(thread_id, detaching_thread) fmap"
  u_affinity_queues :: "(thread_id, 'f list) fmap"
  u_queue :: "'f list"
  u_affinities :: "thread_id list"
  u_die_semaphore :: nat
  u_end :: bool
  tasks_made :: nat

subsection \<open>Containers and the semaphore\<close>

text \<open>\<^verbatim>\<open>std::queue::size\<close>, a \<^verbatim>\<open>size_t\<close>.\<close>

definition queue_size :: "'f list \<Rightarrow> size_t" where
  "queue_size q = of_nat (length q)"

text \<open>
  \<^verbatim>\<open>std::unordered_map::operator[]\<close> inserts a default constructed value (the empty
  queue) under a key that has none, and yields a reference to the value under the key:
  \<open>subscript_insert\<close> is the map it leaves, \<open>subscript_value\<close> the queue referred to.
\<close>

definition subscript_insert ::
    "(thread_id, 'f list) fmap \<Rightarrow> thread_id \<Rightarrow> (thread_id, 'f list) fmap" where
  "subscript_insert m k = (case fmlookup m k of None \<Rightarrow> fmupd k [] m | Some q \<Rightarrow> m)"

definition subscript_value :: "(thread_id, 'f list) fmap \<Rightarrow> thread_id \<Rightarrow> 'f list" where
  "subscript_value m k = (case fmlookup m k of None \<Rightarrow> [] | Some q \<Rightarrow> q)"

text \<open>
  Modelled from the spec: \<^verbatim>\<open>semaphore.h\<close> is not among the sources. The spec calls the
  semaphore the count of pending retirement permits: shrinking increments it by the
  number of workers to retire, a worker attempts to consume one permit without blocking,
  and a worker that may not retire returns its permit. The count is a natural number;
  \<open>semaphore_try_wait\<close> yields the decremented count when a permit was there.
\<close>

definition semaphore_try_wait :: "nat \<Rightarrow> nat option" where
  "semaphore_try_wait c = (if 0 < c then Some (c - 1) else None)"

definition semaphore_notify :: "nat \<Rightarrow> nat \<Rightarrow> nat" where
  "semaphore_notify n c = c + n"

subsection \<open>Spawning and construction\<close>

text \<open>
  \<^verbatim>\<open>_spawn\<close> (lines 354 to 362). The identity of the started thread is chosen by the
  operating system and is an argument here. \<^verbatim>\<open>_threads[id] = std::move(t)\<close> overwrites
  a handle already stored under that identity.
\<close>

definition u_spawn :: "thread_id \<Rightarrow> 'f thread_pool \<Rightarrow> 'f thread_pool" where
  "u_spawn i s =
     s\<lparr>u_threads := fmupd i (Detaching_thread i) (u_threads s),
       u_affinities := u_affinities s @ [i],
       u_affinity_queues := subscript_insert (u_affinity_queues s) i,
       u_size := u_size s + 1\<rparr>"

text \<open>The member initialisers of lines 364 to 379: the pool before the constructor body.\<close>

definition initial_pool :: "'f thread_pool" where
  "initial_pool =
     \<lparr>u_size = 0, u_threads = fmempty, u_affinity_queues = fmempty, u_queue = [],
      u_affinities = [], u_die_semaphore = 0, u_end = False, tasks_made = 0\<rparr>"

text \<open>
  The constructor (lines 72 to 78), \<^verbatim>\<open>while (size--) _spawn();\<close>. The stream gives the
  identities of the threads started, in order.
\<close>

function ctor_loop :: "size_t \<Rightarrow> thread_id stream \<Rightarrow> 'f thread_pool \<Rightarrow> 'f thread_pool" where
  "ctor_loop n ids s =
     (if n = 0 then s else ctor_loop (n - 1) (stl ids) (u_spawn (shd ids) s))"
  by pat_completeness auto
termination
  by (relation "measure (\<lambda>(n, ids, s). unat n)") (auto simp: unat_minus_one unat_gt_0)

definition thread_pool_ctor :: "size_t \<Rightarrow> thread_id stream \<Rightarrow> 'f thread_pool" where
  "thread_pool_ctor n ids = ctor_loop n ids initial_pool"

subsection \<open>Submission\<close>

text \<open>
  \<^verbatim>\<open>push(f, args...)\<close> (lines 125 to 146). The task and its future are made before the
  lock is taken and the flag read; an exception leaves the pool as it was at the throw.
\<close>

definition push :: "'f \<Rightarrow> 'f thread_pool \<Rightarrow> (error + 'f future) \<times> 'f thread_pool" where
  "push f s =
     (let s1 = s\<lparr>tasks_made := Suc (tasks_made s)\<rparr> in
      if u_end s1 then (Inl Thread_pool_closed, s1)
      else (Inr (Future f), s1\<lparr>u_queue := u_queue s1 @ [f]\<rparr>))"

text \<open>\<^verbatim>\<open>push(affinity, f, args...)\<close> (lines 148 to 179).\<close>

definition push_affinity ::
    "thread_id \<Rightarrow> 'f \<Rightarrow> 'f thread_pool \<Rightarrow> (error + 'f future) \<times> 'f thread_pool" where
  "push_affinity affinity f s =
     (if affinity = No_thread then push f s
      else
        let s1 = s\<lparr>tasks_made := Suc (tasks_made s)\<rparr> in
        if u_end s1 then (Inl Thread_pool_closed, s1)
        else if affinity |\<notin>| fmdom (u_affinity_queues s1) then (Inl Invalid_affinity, s1)
        else
          (Inr (Future f),
           s1\<lparr>u_affinity_queues :=
                 fmupd affinity (subscript_value (u_affinity_queues s1) affinity @ [f])
                   (subscript_insert (u_affinity_queues s1) affinity)\<rparr>))"

text \<open>
  One turn of the loop of \<^verbatim>\<open>push(affinities, f, args...)\<close> (lines 188 to 202), in its
  two parts. The critical section of lines 192 to 195 reads the size of the candidate's
  queue into \<^verbatim>\<open>current_size\<close>. Lines 197 to 201, outside the lock, compare it with
  \<^verbatim>\<open>smallest_size\<close> and, where it is smaller, read the size of the queue a second time
  into \<^verbatim>\<open>smallest_size\<close>. Each read goes through \<^verbatim>\<open>operator[]\<close>. The accumulator is
  the pair of \<^verbatim>\<open>smallest_size\<close> and \<^verbatim>\<open>smallest_id\<close>.
\<close>

definition read_size :: "thread_id \<Rightarrow> 'f thread_pool \<Rightarrow> size_t \<times> 'f thread_pool" where
  "read_size aff s =
     (let s1 = s\<lparr>u_affinity_queues := subscript_insert (u_affinity_queues s) aff\<rparr>
      in (queue_size (subscript_value (u_affinity_queues s1) aff), s1))"

definition note_smallest ::
    "thread_id \<Rightarrow> size_t \<Rightarrow> size_t \<times> thread_id \<Rightarrow> 'f thread_pool \<Rightarrow>
     (size_t \<times> thread_id) \<times> 'f thread_pool" where
  "note_smallest aff current_size acc s =
     (case acc of
        (smallest_size, smallest_id) \<Rightarrow>
          if current_size < smallest_size then
            let s2 = s\<lparr>u_affinity_queues := subscript_insert (u_affinity_queues s) aff\<rparr>
            in ((queue_size (subscript_value (u_affinity_queues s2) aff), aff), s2)
          else ((smallest_size, smallest_id), s))"

text \<open>The loop over the container in its iteration order, no other thread running.\<close>

fun smallest_loop ::
    "thread_id list \<Rightarrow> size_t \<times> thread_id \<Rightarrow> 'f thread_pool \<Rightarrow>
     (size_t \<times> thread_id) \<times> 'f thread_pool" where
  "smallest_loop [] acc s = (acc, s)"
| "smallest_loop (aff # rest) acc s =
     (case read_size aff s of
        (current_size, s1) \<Rightarrow>
          (case note_smallest aff current_size acc s1 of
             (acc', s2) \<Rightarrow> smallest_loop rest acc' s2))"

text \<open>
  \<^verbatim>\<open>push(affinities, f, args...)\<close> (lines 181 to 210);
  \<^verbatim>\<open>std::size_t smallest_size = -1\<close> is the largest value of the type.
\<close>

definition push_container ::
    "thread_id list \<Rightarrow> 'f \<Rightarrow> 'f thread_pool \<Rightarrow> (error + 'f future) \<times> 'f thread_pool" where
  "push_container affinities f s =
     (case smallest_loop affinities (- 1, No_thread) s of
        ((smallest_size, smallest_id), s1) \<Rightarrow>
          if smallest_id = No_thread then push f s1 else push_affinity smallest_id f s1)"

text \<open>
  The same call with other threads at work: each candidate comes with what the other
  threads do to the pool between the critical section of its turn and line 197, the
  lock being free there.
\<close>

fun smallest_loop_among ::
    "(thread_id \<times> ('f thread_pool \<Rightarrow> 'f thread_pool)) list \<Rightarrow> size_t \<times> thread_id \<Rightarrow>
     'f thread_pool \<Rightarrow> (size_t \<times> thread_id) \<times> 'f thread_pool" where
  "smallest_loop_among [] acc s = (acc, s)"
| "smallest_loop_among ((aff, others) # rest) acc s =
     (case read_size aff s of
        (current_size, s1) \<Rightarrow>
          (case note_smallest aff current_size acc (others s1) of
             (acc', s2) \<Rightarrow> smallest_loop_among rest acc' s2))"

definition push_container_among ::
    "(thread_id \<times> ('f thread_pool \<Rightarrow> 'f thread_pool)) list \<Rightarrow> 'f \<Rightarrow> 'f thread_pool \<Rightarrow>
     (error + 'f future) \<times> 'f thread_pool" where
  "push_container_among affinities f s =
     (case smallest_loop_among affinities (- 1, No_thread) s of
        ((smallest_size, smallest_id), s1) \<Rightarrow>
          if smallest_id = No_thread then push f s1 else push_affinity smallest_id f s1)"

subsection \<open>Size, resizing, affinities, shutdown\<close>

text \<open>\<^verbatim>\<open>size()\<close> (lines 212 to 215).\<close>

definition size_pool :: "'f thread_pool \<Rightarrow> size_t" where
  "size_pool s = u_size s"

text \<open>\<^verbatim>\<open>while (_size < new_size) _spawn();\<close> of \<^verbatim>\<open>resize\<close> (lines 228 to 231).\<close>

function spawn_until :: "size_t \<Rightarrow> thread_id stream \<Rightarrow> 'f thread_pool \<Rightarrow> 'f thread_pool" where
  "spawn_until new_size ids s =
     (if u_size s < new_size then spawn_until new_size (stl ids) (u_spawn (shd ids) s) else s)"
  by pat_completeness auto
termination
proof (relation "measure (\<lambda>(new_size, ids, s). unat (new_size - u_size s))")
  show "wf (measure (\<lambda>(new_size :: size_t, ids :: thread_id stream, s :: 'f thread_pool).
    unat (new_size - u_size s)))"
    by simp
next
  fix new_size :: size_t and ids :: "thread_id stream" and s :: "'f thread_pool"
  assume less: "u_size s < new_size"
  then have "new_size - u_size s \<noteq> 0"
    by auto
  then have dec: "unat (new_size - u_size s - 1) < unat (new_size - u_size s)"
    by (simp add: unat_minus_one unat_gt_0)
  have eq: "new_size - u_size (u_spawn (shd ids) s) = new_size - u_size s - 1"
    by (simp add: u_spawn_def)
  have "unat (new_size - u_size (u_spawn (shd ids) s)) < unat (new_size - u_size s)"
    unfolding eq by (rule dec)
  then show "((new_size, stl ids, u_spawn (shd ids) s), (new_size, ids, s))
      \<in> measure (\<lambda>(new_size, ids, s). unat (new_size - u_size s))"
    by simp
qed

text \<open>\<^verbatim>\<open>resize\<close> (lines 217 to 239).\<close>

definition resize :: "size_t \<Rightarrow> thread_id stream \<Rightarrow> 'f thread_pool \<Rightarrow> 'f thread_pool" where
  "resize new_size ids s =
     (if new_size = u_size s then s
      else if u_size s < new_size then spawn_until new_size ids s
      else
        s\<lparr>u_die_semaphore := semaphore_notify (unat (u_size s - new_size)) (u_die_semaphore s),
          u_size := new_size\<rparr>)"

text \<open>
  \<^verbatim>\<open>allocate_affinity\<close> (lines 241 to 258); \<open>i\<close> is the identity the operating system
  gives the thread, should one be spawned.
\<close>

definition allocate_affinity ::
    "bool \<Rightarrow> thread_id \<Rightarrow> 'f thread_pool \<Rightarrow> (error + thread_id) \<times> 'f thread_pool" where
  "allocate_affinity insert' i s =
     (let s1 = (if u_affinities s = [] \<and> insert' then u_spawn i s else s) in
      if u_affinities s1 \<noteq> [] then
        (Inr (last (u_affinities s1)), s1\<lparr>u_affinities := butlast (u_affinities s1)\<rparr>)
      else (Inl Free_affinities_exhausted, s1))"

text \<open>
  The critical section of \<^verbatim>\<open>abort\<close> (lines 103 to 110), and what the destructor does
  to the pool (line 82). The joins that follow change no member.
\<close>

definition abort :: "'f thread_pool \<Rightarrow> 'f thread_pool" where
  "abort s = s\<lparr>u_queue := [], u_affinity_queues := fmempty, u_end := True\<rparr>"

definition thread_pool_dtor :: "'f thread_pool \<Rightarrow> 'f thread_pool" where
  "thread_pool_dtor s = s\<lparr>u_end := True\<rparr>"

subsection \<open>Retirement\<close>

text \<open>
  \<^verbatim>\<open>_try_die\<close> (lines 330 to 352), run by the thread \<open>this_thread_id\<close>. \<^verbatim>\<open>std::find\<close>
  yields the end iterator when the identity is not in \<^verbatim>\<open>_affinities\<close>, and the
  \<^verbatim>\<open>find\<close> of the registry when the thread is not registered; \<^verbatim>\<open>erase\<close> of an end
  iterator is undefined. The entry of \<^verbatim>\<open>_affinity_queues\<close> is there, line 336 made it.
\<close>

definition u_try_die ::
    "thread_id \<Rightarrow> 'f thread_pool \<Rightarrow> undefined_behaviour + (bool \<times> 'f thread_pool)" where
  "u_try_die this_thread_id s =
     (case semaphore_try_wait (u_die_semaphore s) of
        None \<Rightarrow> Inr (False, s)
      | Some c \<Rightarrow>
          let s1 = s\<lparr>u_die_semaphore := c,
                     u_affinity_queues := subscript_insert (u_affinity_queues s) this_thread_id\<rparr>
          in
            if subscript_value (u_affinity_queues s1) this_thread_id \<noteq> [] then
              Inr (False, s1\<lparr>u_die_semaphore := semaphore_notify 1 (u_die_semaphore s1)\<rparr>)
            else if this_thread_id \<notin> set (u_affinities s1) then Inl Erase_end_affinities
            else
              let s2 = s1\<lparr>u_affinities := remove1 this_thread_id (u_affinities s1),
                         u_affinity_queues := fmdrop this_thread_id (u_affinity_queues s1)\<rparr>
              in
                if this_thread_id |\<notin>| fmdom (u_threads s2) then Inl Erase_end_threads
                else
                  Inr (True,
                       s2\<lparr>u_threads := fmdrop this_thread_id (u_threads s2),
                          u_size := u_size s2 - 1\<rparr>))"

subsection \<open>The threads of the pool\<close>

text \<open>
  The state of the whole: the pool; where each worker stands in \<^verbatim>\<open>_loop\<close>; the thread
  that is spawning, if any; the accesses to the members that are under way outside the
  lock; and five records kept for the statements below, which no code reads: how many
  times \<^verbatim>\<open>abort\<close> has run, the tasks accepted, each with the queue it was put in
  (\<open>No_thread\<close> for the global queue), the tasks taken off the global queue, the tasks
  run, each with the worker that ran it and the queue it was taken from, and the
  undefined behaviour reached, if any.

  A worker is at one of the places of \<^verbatim>\<open>_loop\<close> (lines 261 to 328) where another
  thread may run before it goes on: before the test of line 269; in that test, reading
  \<^verbatim>\<open>_threads.size()\<close>; before the critical section of lines 271 to 278; before line
  283; in line 283, inside \<^verbatim>\<open>operator[]\<close>; before or in the critical section of lines
  285 to 318, in which it also sleeps; and at line 320, holding the task it dequeued. No
  callback being registered, lines 263 to 267 and 322 to 326 do nothing.

  Line 283 binds \<^verbatim>\<open>this_queue\<close>, a reference to the worker's element of
  \<^verbatim>\<open>_affinity_queues\<close>, and the worker keeps it while it sleeps. A reference to an
  element of a \<^verbatim>\<open>std::unordered_map\<close> is valid until the element is destroyed. Two
  statements destroy elements: line 343, by which a worker erases its own element and
  then returns, and line 107, by which \<^verbatim>\<open>abort\<close> replaces the map and so destroys them
  all. So the reference a worker holds is valid exactly when \<^verbatim>\<open>abort\<close> has not run
  since line 283: \<open>cleared\<close> counts the runs of line 107, and \<open>Wait c\<close> remembers the
  count at line 283.
\<close>

datatype 'f worker =
    Loop_head
  | Test_threads
  | Try_die
  | Get_queue
  | Binding
  | Wait nat
  | Run thread_id 'f
  | Terminated

text \<open>
  \<^verbatim>\<open>_spawn\<close> starts the thread at line 356 and registers it in lines 358 to 361, and the
  thread runs \<^verbatim>\<open>_loop\<close> from line 356 on: a call that spawns is therefore not one step.
  The constructor spawns without the lock (lines 74 to 77), with the \<^verbatim>\<open>size\<close> it still
  has to count down; \<^verbatim>\<open>resize\<close> and \<^verbatim>\<open>allocate_affinity\<close> spawn with the lock held
  (lines 228 to 231 and 247). Each comes with the thread it has started and not yet
  registered, if any.
\<close>

datatype spawner =
    Constructor size_t "thread_id stream" "thread_id option"
  | Resizer size_t "thread_id stream" "thread_id option"
  | Allocator thread_id

record 'f system =
  pool :: "'f thread_pool"
  workers :: "(thread_id, 'f worker) fmap"
  spawning :: "spawner option"
  rereading :: "thread_id list"
  joining :: nat
  cleared :: nat
  accepted :: "(thread_id \<times> 'f) list"
  taken :: "'f list"
  executed :: "(thread_id \<times> thread_id \<times> 'f) list"
  fault :: "undefined_behaviour option"

definition set_worker :: "thread_id \<Rightarrow> 'f worker \<Rightarrow> 'f system \<Rightarrow> 'f system" where
  "set_worker w pc sys = sys\<lparr>workers := fmupd w pc (workers sys)\<rparr>"

text \<open>
  The mutex is held from one step to the next only by a call that spawns; every other
  critical section is one step. While the constructor runs, no other member function can
  be called.
\<close>

definition lock_held :: "'f system \<Rightarrow> bool" where
  "lock_held sys =
     (case spawning sys of
        Some (Resizer new_size ids t) \<Rightarrow> True
      | Some (Allocator i) \<Rightarrow> True
      | _ \<Rightarrow> False)"

definition under_construction :: "'f system \<Rightarrow> bool" where
  "under_construction sys =
     (case spawning sys of Some (Constructor n ids t) \<Rightarrow> True | _ \<Rightarrow> False)"

definition callable :: "'f system \<Rightarrow> bool" where
  "callable sys = (spawning sys = None)"

text \<open>
  Data races. Four accesses to the containers are made without the lock, by threads that
  run while others hold it: the read \<^verbatim>\<open>_threads.size()\<close> of line 269, which a worker
  makes when it has found \<^verbatim>\<open>_end\<close> set; the \<^verbatim>\<open>operator[]\<close> of line 283; the
  \<^verbatim>\<open>operator[]\<close> and \<^verbatim>\<open>size()\<close> of line 199; and the iteration over \<^verbatim>\<open>_threads\<close> in
  which \<^verbatim>\<open>abort\<close> and the destructor join the workers (lines 85 to 98 and 112 to 122).
  The constructor makes every access of \<^verbatim>\<open>_spawn\<close> without the lock. \<^verbatim>\<open>_size\<close> and
  \<^verbatim>\<open>_end\<close> are atomic. An access made without the lock has a beginning and an end,
  which are two steps; an access made under the lock, and one of the constructor, is one
  step. When a thread accesses a container between the beginning and the end of another
  thread's access to it, and one of the two may modify it, the two accesses conflict and
  neither happens before the other: a data race, which the C++ standard leaves undefined.
  \<^verbatim>\<open>operator[]\<close> of a \<^verbatim>\<open>std::unordered_map\<close> counts as a modification, whether or not
  it inserts; an access to a queue through a reference obtained before is an access to
  that queue, not to the map.

  \<open>queues_busy sys me\<close>: a thread other than \<open>me\<close> is inside an access to
  \<^verbatim>\<open>_affinity_queues\<close> made without the lock (line 199 or line 283).
  \<open>threads_read sys me\<close>: a thread other than \<open>me\<close> is reading \<^verbatim>\<open>_threads\<close> without the
  lock (line 269 or a join loop). The threads of callers go by \<open>No_thread\<close>, which is the
  identity of no worker.
\<close>

definition queues_busy :: "'f system \<Rightarrow> thread_id \<Rightarrow> bool" where
  "queues_busy sys me =
     (rereading sys \<noteq> [] \<or> \<not> fmpred (\<lambda>w pc. w = me \<or> pc \<noteq> Binding) (workers sys))"

definition threads_read :: "'f system \<Rightarrow> thread_id \<Rightarrow> bool" where
  "threads_read sys me =
     (0 < joining sys \<or> \<not> fmpred (\<lambda>w pc. w = me \<or> pc \<noteq> Test_threads) (workers sys))"

definition raced :: "'f system \<Rightarrow> 'f system" where
  "raced sys = sys\<lparr>fault := Some Data_race\<rparr>"

text \<open>
  \<^verbatim>\<open>if (_try_die()) return;\<close> (lines 274 to 277 and 289 to 292), the worker going on at
  \<open>continue\<close> when it stays. With a permit, \<^verbatim>\<open>_try_die\<close> accesses \<^verbatim>\<open>_affinity_queues\<close>
  from line 336 on, and it modifies \<^verbatim>\<open>_threads\<close> when it reaches line 345.
\<close>

definition retire :: "thread_id \<Rightarrow> 'f worker \<Rightarrow> 'f system \<Rightarrow> 'f system" where
  "retire w continue sys =
     (if 0 < u_die_semaphore (pool sys) \<and>
         (queues_busy sys w \<or>
          (subscript_value (u_affinity_queues (pool sys)) w = [] \<and>
           w \<in> set (u_affinities (pool sys)) \<and> threads_read sys w))
      then raced sys
      else
        (case u_try_die w (pool sys) of
           Inl ub \<Rightarrow> sys\<lparr>fault := Some ub\<rparr>
         | Inr (died, p) \<Rightarrow>
             set_worker w (if died then Terminated else continue) (sys\<lparr>pool := p\<rparr>)))"

text \<open>
  One step of \<^verbatim>\<open>_loop\<close> by the thread \<open>w\<close>. The test of line 269 reads \<^verbatim>\<open>_end\<close> and,
  only when it is set, \<^verbatim>\<open>_threads.size()\<close>. The two critical sections wait for the
  mutex. At \<open>Wait c\<close> the step is the critical section of lines 285 to 318 from the test
  of line 287 on: either the worker retires or goes to sleep in \<^verbatim>\<open>_cond.wait\<close> (and
  stands at the same test when it wakes), or it leaves the inner loop, and then returns
  or dequeues; \<^verbatim>\<open>this_queue.pop()\<close> modifies the queue that a caller inside line 199
  for the same identity is reading. The size of a container, used as a condition, is
  nonzero exactly when the container is not empty.
\<close>

definition u_loop :: "thread_id \<Rightarrow> 'f system \<Rightarrow> 'f system" where
  "u_loop w sys =
     (case fmlookup (workers sys) w of
        None \<Rightarrow> sys
      | Some Loop_head \<Rightarrow>
          set_worker w (if \<not> u_end (pool sys) then Try_die else Test_threads) sys
      | Some Test_threads \<Rightarrow>
          set_worker w (if u_threads (pool sys) \<noteq> fmempty then Try_die else Terminated) sys
      | Some Try_die \<Rightarrow> if lock_held sys then sys else retire w Get_queue sys
      | Some Get_queue \<Rightarrow> if queues_busy sys w then raced sys else set_worker w Binding sys
      | Some Binding \<Rightarrow>
          set_worker w (Wait (cleared sys))
            (sys\<lparr>pool := (pool sys)\<lparr>u_affinity_queues :=
               subscript_insert (u_affinity_queues (pool sys)) w\<rparr>\<rparr>)
      | Some (Wait c) \<Rightarrow>
          if lock_held sys then sys
          else if c \<noteq> cleared sys then sys\<lparr>fault := Some Dangling_queue\<rparr>
          else
            let p = pool sys; this_queue = subscript_value (u_affinity_queues p) w in
            if \<not> u_end p \<and> this_queue = [] \<and> u_queue p = [] then retire w (Wait c) sys
            else if u_end p \<and> this_queue = [] \<and> u_queue p = [] then
              set_worker w Terminated sys
            else if this_queue \<noteq> [] then
              if w \<in> set (rereading sys) then raced sys
              else
                set_worker w (Run w (hd this_queue))
                  (sys\<lparr>pool := p\<lparr>u_affinity_queues :=
                     fmupd w (tl this_queue) (u_affinity_queues p)\<rparr>\<rparr>)
            else if u_queue p \<noteq> [] then
              set_worker w (Run No_thread (hd (u_queue p)))
                (sys\<lparr>pool := p\<lparr>u_queue := tl (u_queue p)\<rparr>,
                     taken := taken sys @ [hd (u_queue p)]\<rparr>)
            else set_worker w Loop_head sys
      | Some (Run src f) \<Rightarrow>
          set_worker w Loop_head (sys\<lparr>executed := executed sys @ [(w, src, f)]\<rparr>)
      | Some Terminated \<Rightarrow> sys)"

text \<open>
  What the threads of a program do to the pool, one step at a time. A call of the
  container \<^verbatim>\<open>push\<close> is either one event, when no other thread runs while it does, or
  for each turn of its loop one \<open>Read_size\<close> (lines 192 to 195) and, where line 199 is
  reached, one \<open>Read_again\<close> and one \<open>Read_done\<close>, followed by the call of \<^verbatim>\<open>push\<close> it
  ends with. \<open>Spawner\<close> is the next step of the thread that is spawning. \<open>Joined\<close> is the
  end of a join loop.
\<close>

datatype 'f event =
    Call_push 'f
  | Call_push_affinity thread_id 'f
  | Call_push_container "thread_id list" 'f
  | Read_size thread_id
  | Read_again thread_id
  | Read_done thread_id
  | Call_resize size_t "thread_id stream"
  | Call_allocate_affinity bool thread_id
  | Spawner
  | Call_abort
  | Call_dtor
  | Joined
  | Worker thread_id

text \<open>
  The operating system gives a new thread an identity that is not \<^verbatim>\<open>std::thread::id{}\<close>
  and that no thread still running has.
\<close>

definition live :: "'f system \<Rightarrow> thread_id \<Rightarrow> bool" where
  "live sys i =
     (case fmlookup (workers sys) i of
        None \<Rightarrow> False
      | Some Terminated \<Rightarrow> False
      | Some pc \<Rightarrow> True)"

definition may_start :: "'f system \<Rightarrow> thread_id list \<Rightarrow> bool" where
  "may_start sys ids = (distinct ids \<and> list_all (\<lambda>i. i \<noteq> No_thread \<and> \<not> live sys i) ids)"

definition start :: "thread_id list \<Rightarrow> (thread_id, 'f worker) fmap \<Rightarrow> (thread_id, 'f worker) fmap" where
  "start ids ws = fold (\<lambda>i ws. fmupd i Loop_head ws) ids ws"

text \<open>
  Line 356 by the thread that is spawning, which goes on as \<open>next\<close>, and lines 358 to 361:
  they modify \<^verbatim>\<open>_threads\<close> and call \<^verbatim>\<open>operator[]\<close> of \<^verbatim>\<open>_affinity_queues\<close>.
\<close>

definition start_thread :: "thread_id \<Rightarrow> spawner \<Rightarrow> 'f system \<Rightarrow> 'f system" where
  "start_thread i next sys =
     (if may_start sys [i] then
        sys\<lparr>workers := start [i] (workers sys), spawning := Some next\<rparr>
      else sys)"

definition register :: "thread_id \<Rightarrow> 'f system \<Rightarrow> 'f system" where
  "register i sys =
     (if queues_busy sys No_thread \<or> threads_read sys No_thread then raced sys
      else sys\<lparr>pool := u_spawn i (pool sys)\<rparr>)"

text \<open>
  A join loop ends when every thread of the registry has returned from \<^verbatim>\<open>_loop\<close>.
\<close>

definition all_joined :: "'f system \<Rightarrow> bool" where
  "all_joined sys =
     fmpred (\<lambda>w t. fmlookup (workers sys) w = Some Terminated) (u_threads (pool sys))"

definition note_accepted ::
    "error + 'f future \<Rightarrow> thread_id \<Rightarrow> 'f \<Rightarrow> 'f system \<Rightarrow> 'f system" where
  "note_accepted r a f sys =
     (case r of Inl e \<Rightarrow> sys | Inr fut \<Rightarrow> sys\<lparr>accepted := accepted sys @ [(a, f)]\<rparr>)"

text \<open>
  The steps. A call that needs the mutex waits while a spawning call holds it, and no
  call is made on a pool under construction: such an event leaves the state as it is.
  The global \<^verbatim>\<open>push\<close> accesses no container that is accessed without the lock. The
  affinity \<^verbatim>\<open>push\<close> accesses \<^verbatim>\<open>_affinity_queues\<close> from line 168 on, which it reaches
  when the identity is not the default one and \<^verbatim>\<open>_end\<close> is not set. The destructor
  takes no lock.
\<close>

fun act :: "'f event \<Rightarrow> 'f system \<Rightarrow> 'f system" where
  "act (Call_push f) sys =
     (if \<not> callable sys then sys
      else
        (case push f (pool sys) of (r, p) \<Rightarrow> note_accepted r No_thread f (sys\<lparr>pool := p\<rparr>)))"
| "act (Call_push_affinity a f) sys =
     (if \<not> callable sys then sys
      else if a \<noteq> No_thread \<and> \<not> u_end (pool sys) \<and> queues_busy sys No_thread then raced sys
      else
        (case push_affinity a f (pool sys) of
           (r, p) \<Rightarrow> note_accepted r a f (sys\<lparr>pool := p\<rparr>)))"
| "act (Call_push_container affinities f) sys =
     (if \<not> callable sys then sys
      else if affinities \<noteq> [] \<and> queues_busy sys No_thread then raced sys
      else
        (case push_container affinities f (pool sys) of
           (r, p) \<Rightarrow>
             note_accepted r (snd (fst (smallest_loop affinities (- 1, No_thread) (pool sys)))) f
               (sys\<lparr>pool := p\<rparr>)))"
| "act (Read_size aff) sys =
     (if \<not> callable sys then sys
      else if queues_busy sys No_thread then raced sys
      else
        sys\<lparr>pool := (pool sys)\<lparr>u_affinity_queues :=
          subscript_insert (u_affinity_queues (pool sys)) aff\<rparr>\<rparr>)"
| "act (Read_again aff) sys =
     (if under_construction sys then sys
      else if queues_busy sys No_thread then raced sys
      else sys\<lparr>rereading := aff # rereading sys\<rparr>)"
| "act (Read_done aff) sys =
     (if aff \<in> set (rereading sys) then
        sys\<lparr>pool := (pool sys)\<lparr>u_affinity_queues :=
              subscript_insert (u_affinity_queues (pool sys)) aff\<rparr>,
            rereading := remove1 aff (rereading sys)\<rparr>
      else sys)"
| "act (Call_resize new_size ids) sys =
     (if \<not> callable sys then sys
      else if u_size (pool sys) < new_size then
        sys\<lparr>spawning := Some (Resizer new_size ids None)\<rparr>
      else sys\<lparr>pool := resize new_size ids (pool sys)\<rparr>)"
| "act (Call_allocate_affinity insert' i) sys =
     (if \<not> callable sys then sys
      else if u_affinities (pool sys) = [] \<and> insert' then start_thread i (Allocator i) sys
      else sys\<lparr>pool := snd (allocate_affinity insert' i (pool sys))\<rparr>)"
| "act Spawner sys =
     (case spawning sys of
        None \<Rightarrow> sys
      | Some (Constructor n ids None) \<Rightarrow>
          if n = 0 then sys\<lparr>spawning := None\<rparr>
          else start_thread (shd ids) (Constructor (n - 1) (stl ids) (Some (shd ids))) sys
      | Some (Constructor n ids (Some i)) \<Rightarrow>
          (register i sys)\<lparr>spawning := Some (Constructor n ids None)\<rparr>
      | Some (Resizer new_size ids None) \<Rightarrow>
          if u_size (pool sys) < new_size then
            start_thread (shd ids) (Resizer new_size (stl ids) (Some (shd ids))) sys
          else sys\<lparr>spawning := None\<rparr>
      | Some (Resizer new_size ids (Some i)) \<Rightarrow>
          (register i sys)\<lparr>spawning := Some (Resizer new_size ids None)\<rparr>
      | Some (Allocator i) \<Rightarrow>
          if queues_busy sys No_thread \<or> threads_read sys No_thread then raced sys
          else sys\<lparr>pool := snd (allocate_affinity True i (pool sys)), spawning := None\<rparr>)"
| "act Call_abort sys =
     (if \<not> callable sys then sys
      else if queues_busy sys No_thread then raced sys
      else
        sys\<lparr>pool := abort (pool sys), cleared := Suc (cleared sys),
            joining := Suc (joining sys)\<rparr>)"
| "act Call_dtor sys =
     (if under_construction sys then sys
      else sys\<lparr>pool := thread_pool_dtor (pool sys), joining := Suc (joining sys)\<rparr>)"
| "act Joined sys =
     (if 0 < joining sys \<and> all_joined sys then sys\<lparr>joining := joining sys - 1\<rparr> else sys)"
| "act (Worker w) sys = u_loop w sys"

text \<open>Nothing is known of a program after undefined behaviour: the run stops there.\<close>

definition step :: "'f event \<Rightarrow> 'f system \<Rightarrow> 'f system" where
  "step ev sys = (if fault sys = None then act ev sys else sys)"

fun run :: "'f event list \<Rightarrow> 'f system \<Rightarrow> 'f system" where
  "run [] sys = sys"
| "run (ev # evs) sys = run evs (step ev sys)"

text \<open>
  The program at the call of the constructor, and a pool just constructed whose workers
  have not run yet.
\<close>

definition constructing :: "size_t \<Rightarrow> thread_id stream \<Rightarrow> 'f system" where
  "constructing n ids =
     \<lparr>pool = initial_pool, workers = fmempty, spawning = Some (Constructor n ids None),
      rereading = [], joining = 0, cleared = 0, accepted = [], taken = [], executed = [],
      fault = None\<rparr>"

definition new_system :: "size_t \<Rightarrow> thread_id stream \<Rightarrow> 'f system" where
  "new_system n ids =
     \<lparr>pool = thread_pool_ctor n ids, workers = start (stake (unat n) ids) fmempty,
      spawning = None, rereading = [], joining = 0, cleared = 0, accepted = [], taken = [],
      executed = [], fault = None\<rparr>"

subsection \<open>Notions of the statements\<close>

text \<open>The live-worker count and the number of entries of the registry agree.\<close>

definition count_agrees :: "'f thread_pool \<Rightarrow> bool" where
  "count_agrees s = (unat (u_size s) = fcard (fmdom (u_threads s)))"

text \<open>The map after \<^verbatim>\<open>operator[]\<close> was applied to each of the candidates.\<close>

definition inserted ::
    "thread_id list \<Rightarrow> (thread_id, 'f list) fmap \<Rightarrow> (thread_id, 'f list) fmap" where
  "inserted affinities m = fold (\<lambda>aff m. subscript_insert m aff) affinities m"

text \<open>The length of the queue of an affinity, none counting as empty.\<close>

definition queue_length :: "'f thread_pool \<Rightarrow> thread_id \<Rightarrow> nat" where
  "queue_length s k = length (subscript_value (u_affinity_queues s) k)"

text \<open>The accumulator of the loop of the container \<^verbatim>\<open>push\<close>, from the sizes alone.\<close>

fun smallest_of ::
    "(thread_id \<Rightarrow> size_t) \<Rightarrow> thread_id list \<Rightarrow> size_t \<times> thread_id \<Rightarrow> size_t \<times> thread_id" where
  "smallest_of sz [] acc = acc"
| "smallest_of sz (aff # rest) (smallest_size, smallest_id) =
     (if sz aff < smallest_size then smallest_of sz rest (sz aff, aff)
      else smallest_of sz rest (smallest_size, smallest_id))"

text \<open>
  The tasks accepted for a queue and the tasks run from it, in order, and the task a
  worker has dequeued from its own queue and not run yet.
\<close>

definition accepted_for :: "thread_id \<Rightarrow> 'f system \<Rightarrow> 'f list" where
  "accepted_for a sys = map snd (filter (\<lambda>(b, f). b = a) (accepted sys))"

definition executed_from :: "thread_id \<Rightarrow> 'f system \<Rightarrow> 'f list" where
  "executed_from a sys = map (\<lambda>(w, src, f). f) (filter (\<lambda>(w, src, f). src = a) (executed sys))"

definition held :: "'f system \<Rightarrow> thread_id \<Rightarrow> 'f list" where
  "held sys a =
     (case fmlookup (workers sys) a of
        Some (Run src f) \<Rightarrow> if src = a then [f] else []
      | _ \<Rightarrow> [])"

text \<open>The queue of an identity, none counting as empty.\<close>

definition queue_of :: "'f system \<Rightarrow> thread_id \<Rightarrow> 'f list" where
  "queue_of sys a = subscript_value (u_affinity_queues (pool sys)) a"

text \<open>
  The account of the queue of an identity: the tasks run from it, then the task its
  worker holds, then the tasks waiting in it, are the first of the tasks accepted for
  it, in their order, and all of them as long as \<^verbatim>\<open>abort\<close> has not run. The account of
  the global queue: the tasks taken off it, then the tasks waiting in it, are the first
  of the tasks accepted for it, and all of them as long as \<^verbatim>\<open>abort\<close> has not run.
\<close>

definition ledger :: "'f system \<Rightarrow> thread_id \<Rightarrow> bool" where
  "ledger sys a =
     (prefix (executed_from a sys @ held sys a @ queue_of sys a) (accepted_for a sys) \<and>
      (0 < cleared sys \<or>
       executed_from a sys @ held sys a @ queue_of sys a = accepted_for a sys))"

definition global_ledger :: "'f system \<Rightarrow> bool" where
  "global_ledger sys =
     (prefix (taken sys @ u_queue (pool sys)) (accepted_for No_thread sys) \<and>
      (0 < cleared sys \<or> taken sys @ u_queue (pool sys) = accepted_for No_thread sys))"

text \<open>
  A worker runs tasks of the global queue and of its own queue only, and the tasks it
  runs as tasks of the global queue were taken off the global queue. No worker has the
  default identity.
\<close>

definition own_source :: "thread_id \<Rightarrow> thread_id \<Rightarrow> bool" where
  "own_source w src = (src = No_thread \<or> src = w)"

definition runs_own :: "'f system \<Rightarrow> bool" where
  "runs_own sys =
     ((\<forall>w src f. fmlookup (workers sys) w = Some (Run src f) \<longrightarrow>
         own_source w src \<and> (src = No_thread \<longrightarrow> f \<in> set (taken sys))) \<and>
      list_all (\<lambda>(w, src, f). own_source w src) (executed sys) \<and>
      set (executed_from No_thread sys) \<subseteq> set (taken sys) \<and>
      fmlookup (workers sys) No_thread = None)"

text \<open>The flag is set once \<^verbatim>\<open>abort\<close> has run.\<close>

definition sound :: "'f system \<Rightarrow> bool" where
  "sound sys =
     ((\<forall>a. a \<noteq> No_thread \<longrightarrow> ledger sys a) \<and> global_ledger sys \<and> runs_own sys \<and>
      (0 < cleared sys \<longrightarrow> u_end (pool sys)))"

text \<open>
  Two pools with the same content in every queue and the same flag.
\<close>

definition same_queues :: "'f thread_pool \<Rightarrow> 'f thread_pool \<Rightarrow> bool" where
  "same_queues p p' =
     ((\<forall>a. subscript_value (u_affinity_queues p') a = subscript_value (u_affinity_queues p) a) \<and>
      u_queue p' = u_queue p \<and> u_end p' = u_end p)"

text \<open>
  A pool that is shut down with every queue empty, no worker holding a task.
\<close>

definition drained :: "'f system \<Rightarrow> bool" where
  "drained sys =
     (u_end (pool sys) \<and> u_queue (pool sys) = [] \<and> (\<forall>a. queue_of sys a = []) \<and>
      (\<forall>w src f. fmlookup (workers sys) w \<noteq> Some (Run src f)))"

text \<open>A state in which no access made without the lock is under way.\<close>

definition quiet :: "'f system \<Rightarrow> bool" where
  "quiet sys =
     (fault sys = None \<and> rereading sys = [] \<and> joining sys = 0 \<and>
      fmpred (\<lambda>w pc. pc \<noteq> Binding \<and> pc \<noteq> Test_threads) (workers sys))"

subsection \<open>Examples\<close>

text \<open>
  Streams of thread identities, and a pool of two workers in which the first worker has
  one task queued and the second none.
\<close>

definition ids_from :: "nat \<Rightarrow> thread_id stream" where
  "ids_from n = smap Thread (fromN n)"

definition busy_pool :: "string thread_pool" where
  "busy_pool =
     \<lparr>u_size = 2,
      u_threads = fmupd (Thread 2) (Detaching_thread (Thread 2))
        (fmupd (Thread 1) (Detaching_thread (Thread 1)) fmempty),
      u_affinity_queues = fmupd (Thread 2) [] (fmupd (Thread 1) [''first''] fmempty),
      u_queue = [], u_affinities = [Thread 1, Thread 2], u_die_semaphore = 0,
      u_end = False, tasks_made = 1\<rparr>"

text \<open>
  A pool of two workers with one task queued for the first and three for the second,
  and another thread that pushes three tasks to the first worker.
\<close>

definition loaded_pool :: "string thread_pool" where
  "loaded_pool =
     \<lparr>u_size = 2,
      u_threads = fmupd (Thread 2) (Detaching_thread (Thread 2))
        (fmupd (Thread 1) (Detaching_thread (Thread 1)) fmempty),
      u_affinity_queues =
        fmupd (Thread 2) [''b'', ''c'', ''d''] (fmupd (Thread 1) [''a''] fmempty),
      u_queue = [], u_affinities = [Thread 1, Thread 2], u_die_semaphore = 0,
      u_end = False, tasks_made = 4\<rparr>"

text \<open>
  The worker \<open>Thread 1\<close> running \<^verbatim>\<open>_try_die\<close>, and a pool of one worker after
  \<^verbatim>\<open>resize(0)\<close>, a container push having made a queue for \<open>Thread 8\<close> and the worker
  having retired.
\<close>

definition retirement :: "string thread_pool \<Rightarrow> string thread_pool" where
  "retirement p = (case u_try_die (Thread 1) p of Inl ub \<Rightarrow> p | Inr (died, p') \<Rightarrow> p')"

definition retired_pool :: "string thread_pool" where
  "retired_pool =
     \<lparr>u_size = - 1, u_threads = fmempty, u_affinity_queues = fmupd (Thread 8) [] fmempty,
      u_queue = [], u_affinities = [], u_die_semaphore = 0, u_end = False, tasks_made = 0\<rparr>"

definition flood :: "string thread_pool \<Rightarrow> string thread_pool" where
  "flood p =
     snd (push_affinity (Thread 1) ''z''
       (snd (push_affinity (Thread 1) ''y'' (snd (push_affinity (Thread 1) ''x'' p)))))"

section \<open>Properties\<close>

declare ctor_loop.simps [simp del] spawn_until.simps [simp del]

lemmas pool_defs = thread_pool_ctor_def initial_pool_def u_spawn_def
  subscript_insert_def subscript_value_def push_def push_affinity_def push_container_def
  push_container_among_def read_size_def note_smallest_def
  allocate_affinity_def resize_def abort_def thread_pool_dtor_def
  u_try_die_def semaphore_try_wait_def semaphore_notify_def queue_size_def size_pool_def
  Let_def

lemma fmpred_fmupd_iff: "fmpred P (fmupd k v m) = (P k v \<and> fmpred P (fmdrop k m))"
  by (auto simp: fmpred_iff split: if_splits)

lemmas run_defs = step_def u_loop_def retire_def set_worker_def start_def may_start_def
  live_def note_accepted_def start_thread_def register_def raced_def callable_def
  lock_held_def under_construction_def queues_busy_def threads_read_def all_joined_def
  fmpred_fmupd_iff fmdrop_fmupd

subsection \<open>Evaluating the loops on examples\<close>

lemma ids_from_sel [simp]: "shd (ids_from n) = Thread n" "stl (ids_from n) = ids_from (Suc n)"
  by (simp_all add: ids_from_def)

lemma ctor_loop_zero [simp]: "ctor_loop 0 ids s = s"
  by (simp add: ctor_loop.simps)

lemma ctor_loop_one [simp]: "ctor_loop 1 ids s = u_spawn (shd ids) s"
  by (simp add: ctor_loop.simps [of 1])

lemma ctor_loop_two [simp]: "ctor_loop 2 ids s = u_spawn (shd (stl ids)) (u_spawn (shd ids) s)"
  by (simp add: ctor_loop.simps [of 2])

lemma ctor_loop_three [simp]:
  "ctor_loop 3 ids s =
     u_spawn (shd (stl (stl ids))) (u_spawn (shd (stl ids)) (u_spawn (shd ids) s))"
  by (simp add: ctor_loop.simps [of 3])

lemma zero_less_max [simp]: "(0 :: size_t) < - 1"
  by (simp add: word_less_nat_alt unsigned_minus_1_eq_mask mask_eq_exp_minus_1)

subsection \<open>The subscript operator and the loop of the container push\<close>

lemma subscript_insert_twice [simp]:
  "subscript_insert (subscript_insert m k) k = subscript_insert m k"
  by (simp add: subscript_insert_def split: option.splits)

lemma subscript_value_insert [simp]:
  "subscript_value (subscript_insert m k) k' = subscript_value m k'"
  by (simp add: subscript_insert_def subscript_value_def split: option.splits)

lemma subscript_value_inserted [simp]:
  "subscript_value (inserted affinities m) k = subscript_value m k"
  by (induction affinities arbitrary: m) (simp_all add: inserted_def)

lemma fmdom_subscript_insert [simp]:
  "fmdom (subscript_insert m k) = finsert k (fmdom m)"
  by (auto simp: subscript_insert_def split: option.splits dest: fmdom_notD fmdomI)

lemma fmdom_inserted:
  "fmdom (inserted affinities m) = fset_of_list affinities |\<union>| fmdom m"
  by (induction affinities arbitrary: m) (auto simp: inserted_def)

lemma subscript_insert_present:
  "k |\<in>| fmdom m \<Longrightarrow> subscript_insert m k = m"
  by (auto simp: subscript_insert_def split: option.splits dest: fmdom_notI)

lemma smallest_loop_pool:
  "snd (smallest_loop affinities acc s) =
     s\<lparr>u_affinity_queues := inserted affinities (u_affinity_queues s)\<rparr>"
proof (induction affinities arbitrary: acc s)
  case Nil
  then show ?case by (simp add: inserted_def)
next
  case (Cons aff rest)
  obtain smallest_size smallest_id where acc: "acc = (smallest_size, smallest_id)"
    by (cases acc)
  show ?case
    unfolding acc by (simp add: Cons.IH Let_def inserted_def read_size_def note_smallest_def)
qed

lemma smallest_loop_acc:
  "fst (smallest_loop affinities acc s) =
     smallest_of (\<lambda>k. queue_size (subscript_value (u_affinity_queues s) k)) affinities acc"
proof (induction affinities arbitrary: acc s)
  case Nil
  then show ?case by simp
next
  case (Cons aff rest)
  obtain smallest_size smallest_id where acc: "acc = (smallest_size, smallest_id)"
    by (cases acc)
  show ?case
    unfolding acc by (simp add: Cons.IH Let_def read_size_def note_smallest_def)
qed

text \<open>Whatever the other threads do, each turn leaves a queue under its candidate.\<close>

lemma read_size_inserts: "aff |\<in>| fmdom (u_affinity_queues (snd (read_size aff s)))"
  by (simp add: read_size_def)

text \<open>With no other thread at work the two loops are one.\<close>

lemma smallest_loop_alone:
  "smallest_loop_among (map (\<lambda>aff. (aff, \<lambda>p. p)) affinities) acc s =
     smallest_loop affinities acc s"
  by (induction affinities arbitrary: acc s) (simp_all add: split_beta)

lemma push_container_alone:
  "push_container_among (map (\<lambda>aff. (aff, \<lambda>p. p)) affinities) f s =
     push_container affinities f s"
  by (simp add: push_container_among_def push_container_def smallest_loop_alone)

text \<open>The container push ends in the affinity push for the identity the loop leaves.\<close>

lemma push_container_forwards:
  "push_container affinities f s =
     push_affinity (snd (fst (smallest_loop affinities (- 1, No_thread) s))) f
       (s\<lparr>u_affinity_queues := inserted affinities (u_affinity_queues s)\<rparr>)"
proof -
  obtain smallest_size smallest_id s1
    where loop: "smallest_loop affinities (- 1, No_thread) s = ((smallest_size, smallest_id), s1)"
    by (metis surj_pair)
  have "s1 = s\<lparr>u_affinity_queues := inserted affinities (u_affinity_queues s)\<rparr>"
    using smallest_loop_pool [of affinities "(- 1, No_thread)" s] loop by simp
  then show ?thesis
    by (simp add: push_container_def loop push_affinity_def)
qed

text \<open>
  The loop leaves the accumulator as it was, no size being below it, or it leaves the
  first candidate among those of the least size.
\<close>

lemma smallest_of_first_least:
  "smallest_of sz affinities acc = acc' \<Longrightarrow>
   (acc' = acc \<and> (\<forall>b\<in>set affinities. fst acc \<le> sz b)) \<or>
   (\<exists>pre a post. affinities = pre @ a # post \<and> acc' = (sz a, a) \<and> sz a < fst acc \<and>
      (\<forall>b\<in>set pre. sz a < sz b) \<and> (\<forall>b\<in>set post. sz a \<le> sz b))"
proof (induction affinities arbitrary: acc)
  case Nil
  then show ?case by simp
next
  case (Cons aff rest)
  obtain smallest_size smallest_id where acc: "acc = (smallest_size, smallest_id)"
    by (cases acc)
  show ?case
  proof (cases "sz aff < smallest_size")
    case True
    with Cons.prems acc have later: "smallest_of sz rest (sz aff, aff) = acc'"
      by simp
    from Cons.IH [OF later] show ?thesis
    proof (elim disjE conjE exE)
      assume same: "acc' = (sz aff, aff)" and least: "\<forall>b\<in>set rest. fst (sz aff, aff) \<le> sz b"
      have "aff # rest = [] @ aff # rest \<and> acc' = (sz aff, aff) \<and> sz aff < fst acc \<and>
        (\<forall>b\<in>set []. sz aff < sz b) \<and> (\<forall>b\<in>set rest. sz aff \<le> sz b)"
        using same least True acc by simp
      then show ?thesis by blast
    next
      fix pre a post
      assume split: "rest = pre @ a # post" and res: "acc' = (sz a, a)"
        and less: "sz a < fst (sz aff, aff)"
        and before: "\<forall>b\<in>set pre. sz a < sz b" and after: "\<forall>b\<in>set post. sz a \<le> sz b"
      have "aff # rest = (aff # pre) @ a # post \<and> acc' = (sz a, a) \<and> sz a < fst acc \<and>
        (\<forall>b\<in>set (aff # pre). sz a < sz b) \<and> (\<forall>b\<in>set post. sz a \<le> sz b)"
        using split res less before after True acc by auto
      then show ?thesis by blast
    qed
  next
    case False
    with Cons.prems acc have later: "smallest_of sz rest acc = acc'"
      by simp
    from Cons.IH [OF later] show ?thesis
    proof (elim disjE conjE exE)
      assume "acc' = acc" and "\<forall>b\<in>set rest. fst acc \<le> sz b"
      then show ?thesis using False acc by auto
    next
      fix pre a post
      assume split: "rest = pre @ a # post" and res: "acc' = (sz a, a)"
        and less: "sz a < fst acc"
        and before: "\<forall>b\<in>set pre. sz a < sz b" and after: "\<forall>b\<in>set post. sz a \<le> sz b"
      have "aff # rest = (aff # pre) @ a # post \<and> acc' = (sz a, a) \<and> sz a < fst acc \<and>
        (\<forall>b\<in>set (aff # pre). sz a < sz b) \<and> (\<forall>b\<in>set post. sz a \<le> sz b)"
        using split res less before after False acc by auto
      then show ?thesis by blast
    qed
  qed
qed

lemma unat_queue_size: "length q < 2 ^ 64 \<Longrightarrow> unat (queue_size q) = length q"
  by (simp add: queue_size_def unat_of_nat)

lemma queue_size_less_max: "length q < 2 ^ 64 - 1 \<Longrightarrow> queue_size q < - 1"
proof -
  assume small: "length q < 2 ^ 64 - 1"
  then have "unat (queue_size q) = length q"
    by (simp add: unat_queue_size)
  moreover have "unat (- 1 :: size_t) = 2 ^ 64 - 1"
    by (simp add: unsigned_minus_1_eq_mask mask_eq_exp_minus_1)
  ultimately show ?thesis
    using small by (simp add: word_less_nat_alt)
qed

subsection \<open>The container push\<close>

text \<open>
  With no other thread at work between its critical sections, the container push is the
  affinity push for a candidate whose queue is shortest, the earliest in the container
  among those: every candidate before it has a strictly longer queue, every candidate
  after it a queue at least as long. For an empty container, or one that holds only the
  default identity, it is the global push. Both are pushes on the pool in which the
  loop has applied \<^verbatim>\<open>operator[]\<close> to every candidate. The queues are taken to hold
  fewer than \<open>2 ^ 64 - 1\<close> tasks, so that their sizes are below the initial
  \<^verbatim>\<open>smallest_size\<close>.
\<close>

lemma push_container_least_loaded:
  assumes fits: "\<forall>a\<in>set affinities. queue_length s a < 2 ^ 64 - 1"
  shows "(set affinities \<subseteq> {No_thread} \<longrightarrow>
            push_container affinities f s =
              push f (s\<lparr>u_affinity_queues := inserted affinities (u_affinity_queues s)\<rparr>)) \<and>
         (affinities \<noteq> [] \<longrightarrow>
            (\<exists>pre a post. affinities = pre @ a # post \<and>
               (\<forall>b\<in>set pre. queue_length s a < queue_length s b) \<and>
               (\<forall>b\<in>set post. queue_length s a \<le> queue_length s b) \<and>
               push_container affinities f s =
                 push_affinity a f
                   (s\<lparr>u_affinity_queues := inserted affinities (u_affinity_queues s)\<rparr>)))"
proof -
  define sz where "sz = (\<lambda>k. queue_size (subscript_value (u_affinity_queues s) k))"
  define s1 where "s1 = s\<lparr>u_affinity_queues := inserted affinities (u_affinity_queues s)\<rparr>"
  define acc' where "acc' = smallest_of sz affinities (- 1, No_thread)"
  have call: "push_container affinities f s = push_affinity (snd acc') f s1"
    by (simp add: push_container_forwards smallest_loop_acc acc'_def sz_def s1_def)
  have unat_sz: "unat (sz a) = queue_length s a" if "a \<in> set affinities" for a
  proof -
    from fits that have "queue_length s a < 2 ^ 64 - 1"
      by blast
    then have "length (subscript_value (u_affinity_queues s) a) < 2 ^ 64"
      by (simp add: queue_length_def)
    then show ?thesis
      by (simp add: sz_def queue_length_def unat_queue_size)
  qed
  have below: "sz a < - 1" if "a \<in> set affinities" for a
    using fits that by (simp add: sz_def queue_length_def queue_size_less_max)
  from smallest_of_first_least [OF acc'_def [symmetric]]
  have cases: "(acc' = (- 1, No_thread) \<and> (\<forall>b\<in>set affinities. - 1 \<le> sz b)) \<or>
    (\<exists>pre a post. affinities = pre @ a # post \<and> acc' = (sz a, a) \<and> sz a < - 1 \<and>
      (\<forall>b\<in>set pre. sz a < sz b) \<and> (\<forall>b\<in>set post. sz a \<le> sz b))"
    by simp
  have first: "set affinities \<subseteq> {No_thread} \<longrightarrow> push_container affinities f s = push f s1"
  proof
    assume only: "set affinities \<subseteq> {No_thread}"
    from cases have "snd acc' = No_thread"
      using only by auto
    then show "push_container affinities f s = push f s1"
      by (simp add: call push_affinity_def)
  qed
  have second: "affinities \<noteq> [] \<longrightarrow>
    (\<exists>pre a post. affinities = pre @ a # post \<and>
       (\<forall>b\<in>set pre. queue_length s a < queue_length s b) \<and>
       (\<forall>b\<in>set post. queue_length s a \<le> queue_length s b) \<and>
       push_container affinities f s = push_affinity a f s1)"
  proof
    assume nonempty: "affinities \<noteq> []"
    then obtain b where b: "b \<in> set affinities"
      by (cases affinities) auto
    from below [OF b] have "\<not> - 1 \<le> sz b"
      by simp
    with cases b obtain pre a post where split: "affinities = pre @ a # post"
      and res: "acc' = (sz a, a)"
      and before: "\<forall>b\<in>set pre. sz a < sz b" and after: "\<forall>b\<in>set post. sz a \<le> sz b"
      by blast
    have a: "a \<in> set affinities"
      using split by simp
    have "\<forall>b\<in>set pre. queue_length s a < queue_length s b"
    proof
      fix b assume "b \<in> set pre"
      then have "sz a < sz b" and "b \<in> set affinities"
        using before split by auto
      then show "queue_length s a < queue_length s b"
        using unat_sz [OF a] unat_sz [of b] by (simp add: word_less_nat_alt)
    qed
    moreover have "\<forall>b\<in>set post. queue_length s a \<le> queue_length s b"
    proof
      fix b assume "b \<in> set post"
      then have "sz a \<le> sz b" and "b \<in> set affinities"
        using after split by auto
      then show "queue_length s a \<le> queue_length s b"
        using unat_sz [OF a] unat_sz [of b] by (simp add: word_le_nat_alt)
    qed
    moreover have "push_container affinities f s = push_affinity a f s1"
      using call res by simp
    ultimately show "\<exists>pre a post. affinities = pre @ a # post \<and>
       (\<forall>b\<in>set pre. queue_length s a < queue_length s b) \<and>
       (\<forall>b\<in>set post. queue_length s a \<le> queue_length s b) \<and>
       push_container affinities f s = push_affinity a f s1"
      using split by blast
  qed
  show ?thesis
    using first second unfolding s1_def by (rule conjI)
qed

lemma push_container_least_loaded_example:
  "push_container [No_thread] ''job'' busy_pool =
     push ''job''
       (busy_pool\<lparr>u_affinity_queues := inserted [No_thread] (u_affinity_queues busy_pool)\<rparr>) \<and>
   (\<exists>pre a post. [Thread 1, Thread 2] = pre @ a # post \<and>
       (\<forall>b\<in>set pre. queue_length busy_pool a < queue_length busy_pool b) \<and>
       (\<forall>b\<in>set post. queue_length busy_pool a \<le> queue_length busy_pool b) \<and>
       push_container [Thread 1, Thread 2] ''job'' busy_pool =
         push_affinity a ''job''
           (busy_pool\<lparr>u_affinity_queues :=
              inserted [Thread 1, Thread 2] (u_affinity_queues busy_pool)\<rparr>))"
proof
  have "\<forall>a\<in>set [No_thread]. queue_length busy_pool a < 2 ^ 64 - 1"
    by (simp add: queue_length_def busy_pool_def subscript_value_def)
  from push_container_least_loaded [OF this, of "''job''"]
  show "push_container [No_thread] ''job'' busy_pool =
     push ''job''
       (busy_pool\<lparr>u_affinity_queues := inserted [No_thread] (u_affinity_queues busy_pool)\<rparr>)"
    by simp
next
  have "\<forall>a\<in>set [Thread 1, Thread 2]. queue_length busy_pool a < 2 ^ 64 - 1"
    by (simp add: queue_length_def busy_pool_def subscript_value_def)
  from push_container_least_loaded [OF this, of "''job''"]
  have "[Thread 1, Thread 2] \<noteq> [] \<longrightarrow>
    (\<exists>pre a post. [Thread 1, Thread 2] = pre @ a # post \<and>
       (\<forall>b\<in>set pre. queue_length busy_pool a < queue_length busy_pool b) \<and>
       (\<forall>b\<in>set post. queue_length busy_pool a \<le> queue_length busy_pool b) \<and>
       push_container [Thread 1, Thread 2] ''job'' busy_pool =
         push_affinity a ''job''
           (busy_pool\<lparr>u_affinity_queues :=
              inserted [Thread 1, Thread 2] (u_affinity_queues busy_pool)\<rparr>))"
    by (rule conjunct2)
  then show "\<exists>pre a post. [Thread 1, Thread 2] = pre @ a # post \<and>
       (\<forall>b\<in>set pre. queue_length busy_pool a < queue_length busy_pool b) \<and>
       (\<forall>b\<in>set post. queue_length busy_pool a \<le> queue_length busy_pool b) \<and>
       push_container [Thread 1, Thread 2] ''job'' busy_pool =
         push_affinity a ''job''
           (busy_pool\<lparr>u_affinity_queues :=
              inserted [Thread 1, Thread 2] (u_affinity_queues busy_pool)\<rparr>)"
    by (rule mp) simp
qed

lemma push_keys [simp]: "fmdom (u_affinity_queues (snd (push f s))) = fmdom (u_affinity_queues s)"
  by (simp add: push_def Let_def)

lemma push_affinity_keys [simp]:
  "fmdom (u_affinity_queues (snd (push_affinity a f s))) = fmdom (u_affinity_queues s)"
  by (auto simp: push_affinity_def Let_def)

lemma one_less_max [simp]: "(1 :: size_t) < - 1"
  by (simp add: word_less_nat_alt unsigned_minus_1_eq_mask mask_eq_exp_minus_1)

lemma flood_loaded:
  "flood loaded_pool =
     loaded_pool\<lparr>tasks_made := 7,
       u_affinity_queues :=
         fmupd (Thread 1) [''a'', ''x'', ''y'', ''z''] (u_affinity_queues loaded_pool)\<rparr>"
  by (simp add: flood_def loaded_pool_def push_affinity_def subscript_insert_def
      subscript_value_def Let_def)

lemma loaded_first_turn:
  "read_size (Thread 1) loaded_pool = (1, loaded_pool)"
  by (simp add: read_size_def loaded_pool_def subscript_insert_def subscript_value_def
      queue_size_def)

lemma loaded_first_note:
  "note_smallest (Thread 1) 1 (- 1, No_thread) (flood loaded_pool) =
     ((4, Thread 1), flood loaded_pool)"
  unfolding flood_loaded
  by (simp add: note_smallest_def subscript_insert_def subscript_value_def
      queue_size_def loaded_pool_def)

lemma loaded_second_turn:
  "read_size (Thread 2) (flood loaded_pool) = (3, flood loaded_pool)"
  unfolding flood_loaded
  by (simp add: read_size_def subscript_insert_def subscript_value_def
      queue_size_def loaded_pool_def)

lemma loaded_second_note:
  "note_smallest (Thread 2) 3 (4, Thread 1) (flood loaded_pool) =
     ((3, Thread 2), flood loaded_pool)"
  unfolding flood_loaded
  by (simp add: note_smallest_def subscript_insert_def subscript_value_def
      queue_size_def loaded_pool_def)

lemma loaded_loop_among:
  "smallest_loop_among [(Thread 1, flood), (Thread 2, \<lambda>p. p)] (- 1, No_thread) loaded_pool =
     ((3, Thread 2), flood loaded_pool)"
  unfolding smallest_loop_among.simps loaded_first_turn loaded_first_note
    loaded_second_turn loaded_second_note prod.case
  by (rule refl)

lemma loaded_push_among:
  "push_container_among [(Thread 1, flood), (Thread 2, \<lambda>p. p)] ''job'' loaded_pool =
     push_affinity (Thread 2) ''job'' (flood loaded_pool)"
  unfolding push_container_among_def loaded_loop_among prod.case
  by simp

lemma loaded_note_alone:
  "note_smallest (Thread 1) 1 (- 1, No_thread) loaded_pool = ((1, Thread 1), loaded_pool)"
  "note_smallest (Thread 2) 3 (1, Thread 1) loaded_pool = ((1, Thread 1), loaded_pool)"
  "read_size (Thread 2) loaded_pool = (3, loaded_pool)"
  by (simp_all add: note_smallest_def read_size_def subscript_insert_def subscript_value_def
      queue_size_def loaded_pool_def)

lemma loaded_push_alone:
  "push_container [Thread 1, Thread 2] ''job'' loaded_pool =
     push_affinity (Thread 1) ''job'' loaded_pool"
  unfolding push_container_def smallest_loop.simps loaded_first_turn loaded_note_alone prod.case
  by simp

text \<open>
  Claim C7, at an input where the code departs from it. A pool of two workers, one task
  in the queue of \<open>Thread 1\<close> and three in the queue of \<open>Thread 2\<close>; the container holds
  \<open>Thread 1\<close> and \<open>Thread 2\<close>. The critical section of line 194 reads size 1 for
  \<open>Thread 1\<close>. Before the caller reaches line 197 another thread pushes three tasks to
  \<open>Thread 1\<close>. Line 199 then reads the size of that queue again, without the lock, and
  keeps 4 as \<^verbatim>\<open>smallest_size\<close>. The critical section of the second turn reads size 3
  for \<open>Thread 2\<close>, which is below 4: the task goes to \<open>Thread 2\<close>, whose size read under
  the lock is the larger of the two. Without the other thread it goes to \<open>Thread 1\<close>.
\<close>

theorem container_push_second_read:
  "fst (read_size (Thread 1) loaded_pool) = 1 \<and>
   fst (read_size (Thread 2) (flood loaded_pool)) = 3 \<and>
   fst (push_container_among [(Thread 1, flood), (Thread 2, \<lambda>p. p)] ''job'' loaded_pool) =
     Inr (Future ''job'') \<and>
   fmlookup (u_affinity_queues (snd (push_container_among
       [(Thread 1, flood), (Thread 2, \<lambda>p. p)] ''job'' loaded_pool))) (Thread 1) =
     Some [''a'', ''x'', ''y'', ''z''] \<and>
   fmlookup (u_affinity_queues (snd (push_container_among
       [(Thread 1, flood), (Thread 2, \<lambda>p. p)] ''job'' loaded_pool))) (Thread 2) =
     Some [''b'', ''c'', ''d'', ''job''] \<and>
   fmlookup (u_affinity_queues (snd (push_container [Thread 1, Thread 2] ''job'' loaded_pool)))
       (Thread 1) =
     Some [''a'', ''job'']"
proof (intro conjI)
  show "fst (read_size (Thread 1) loaded_pool) = 1"
    unfolding loaded_first_turn by simp
  show "fst (read_size (Thread 2) (flood loaded_pool)) = 3"
    unfolding loaded_second_turn by simp
  show "fst (push_container_among [(Thread 1, flood), (Thread 2, \<lambda>p. p)] ''job'' loaded_pool) =
     Inr (Future ''job'')"
    unfolding loaded_push_among flood_loaded
    by (simp add: push_affinity_def Let_def loaded_pool_def)
  show "fmlookup (u_affinity_queues (snd (push_container_among
       [(Thread 1, flood), (Thread 2, \<lambda>p. p)] ''job'' loaded_pool))) (Thread 1) =
     Some [''a'', ''x'', ''y'', ''z'']"
    unfolding loaded_push_among flood_loaded
    by (simp add: push_affinity_def Let_def loaded_pool_def subscript_insert_def)
  show "fmlookup (u_affinity_queues (snd (push_container_among
       [(Thread 1, flood), (Thread 2, \<lambda>p. p)] ''job'' loaded_pool))) (Thread 2) =
     Some [''b'', ''c'', ''d'', ''job'']"
    unfolding loaded_push_among flood_loaded
    by (simp add: push_affinity_def Let_def loaded_pool_def subscript_insert_def
        subscript_value_def)
  show "fmlookup (u_affinity_queues (snd (push_container [Thread 1, Thread 2] ''job'' loaded_pool)))
       (Thread 1) =
     Some [''a'', ''job'']"
    unfolding loaded_push_alone
    by (simp add: push_affinity_def Let_def loaded_pool_def subscript_insert_def
        subscript_value_def)
qed

text \<open>
  The keys under other threads. A turn of the loop never takes a key away, so when the
  other threads take none away between the critical sections, every candidate has a
  queue when the loop ends.
\<close>

lemma note_smallest_keys:
  "fmdom (u_affinity_queues s) |\<subseteq>|
     fmdom (u_affinity_queues (snd (note_smallest aff current_size acc s)))"
  by (cases acc) (auto simp: note_smallest_def Let_def)

lemma smallest_loop_among_keys:
  assumes "\<forall>turn\<in>set turns. \<forall>p.
    fmdom (u_affinity_queues p) |\<subseteq>| fmdom (u_affinity_queues (snd turn p))"
  shows "fset_of_list (map fst turns) |\<union>| fmdom (u_affinity_queues s) |\<subseteq>|
    fmdom (u_affinity_queues (snd (smallest_loop_among turns acc s)))"
  using assms
proof (induction turns arbitrary: acc s)
  case Nil
  then show ?case by simp
next
  case (Cons turn turns)
  obtain aff others where turn: "turn = (aff, others)"
    by (cases turn)
  define s1 where "s1 = snd (read_size aff s)"
  define s2 where "s2 = snd (note_smallest aff (fst (read_size aff s)) acc (others s1))"
  define acc' where "acc' = fst (note_smallest aff (fst (read_size aff s)) acc (others s1))"
  have loop: "smallest_loop_among (turn # turns) acc s = smallest_loop_among turns acc' s2"
    by (simp add: turn s1_def s2_def acc'_def split_beta)
  have "fmdom (u_affinity_queues s1) = finsert aff (fmdom (u_affinity_queues s))"
    by (simp add: s1_def read_size_def)
  moreover have "fmdom (u_affinity_queues s1) |\<subseteq>| fmdom (u_affinity_queues (others s1))"
    using Cons.prems by (simp add: turn)
  moreover have "fmdom (u_affinity_queues (others s1)) |\<subseteq>| fmdom (u_affinity_queues s2)"
    unfolding s2_def by (rule note_smallest_keys)
  ultimately have here: "finsert aff (fmdom (u_affinity_queues s)) |\<subseteq>| fmdom (u_affinity_queues s2)"
    by auto
  have "fset_of_list (map fst turns) |\<union>| fmdom (u_affinity_queues s2) |\<subseteq>|
      fmdom (u_affinity_queues (snd (smallest_loop_among turns acc' s2)))"
    using Cons.prems by (intro Cons.IH) simp
  then show ?case
    unfolding loop using here by (auto simp: turn)
qed

text \<open>
  Claim C10, as the code has it. The critical section of each turn of the container push
  leaves a queue under its candidate, whether or not the identity is that of a worker of
  the pool. After a call with no other thread at work, failed or not, the keys of
  \<^verbatim>\<open>_affinity_queues\<close> are the keys it had together with every candidate; and when the
  other threads at work between the critical sections take no key away, every candidate
  still has a queue after the call.
\<close>

theorem push_container_inserts:
  "aff |\<in>| fmdom (u_affinity_queues (snd (read_size aff s))) \<and>
   fmdom (u_affinity_queues (snd (push_container affinities f s))) =
     fset_of_list affinities |\<union>| fmdom (u_affinity_queues s) \<and>
   ((\<forall>turn\<in>set turns. \<forall>p.
        fmdom (u_affinity_queues p) |\<subseteq>| fmdom (u_affinity_queues (snd turn p))) \<longrightarrow>
      fset_of_list (map fst turns) |\<union>| fmdom (u_affinity_queues s) |\<subseteq>|
        fmdom (u_affinity_queues (snd (push_container_among turns f s))))"
proof (intro conjI impI)
  show "aff |\<in>| fmdom (u_affinity_queues (snd (read_size aff s)))"
    by (simp add: read_size_def)
  show "fmdom (u_affinity_queues (snd (push_container affinities f s))) =
     fset_of_list affinities |\<union>| fmdom (u_affinity_queues s)"
    by (simp add: push_container_forwards fmdom_inserted)
  assume "\<forall>turn\<in>set turns. \<forall>p.
    fmdom (u_affinity_queues p) |\<subseteq>| fmdom (u_affinity_queues (snd turn p))"
  then have "fset_of_list (map fst turns) |\<union>| fmdom (u_affinity_queues s) |\<subseteq>|
    fmdom (u_affinity_queues (snd (smallest_loop_among turns (- 1, No_thread) s)))"
    by (rule smallest_loop_among_keys)
  then show "fset_of_list (map fst turns) |\<union>| fmdom (u_affinity_queues s) |\<subseteq>|
    fmdom (u_affinity_queues (snd (push_container_among turns f s)))"
    by (simp add: push_container_among_def split_beta)
qed

theorem push_container_inserts_witness:
  "Thread 7 |\<in>| fmdom (u_affinity_queues (snd (read_size (Thread 7) loaded_pool))) \<and>
   fset_of_list (map fst [(Thread 7, flood), (Thread 8, \<lambda>p. p)]) |\<union>|
       fmdom (u_affinity_queues loaded_pool) |\<subseteq>|
     fmdom (u_affinity_queues (snd (push_container_among
       [(Thread 7, flood), (Thread 8, \<lambda>p. p)] ''job'' loaded_pool)))"
proof -
  have "\<forall>turn\<in>set [(Thread 7, flood), (Thread 8, \<lambda>p. p)]. \<forall>p.
    fmdom (u_affinity_queues p) |\<subseteq>| fmdom (u_affinity_queues (snd turn p))"
    by (simp add: flood_def)
  with push_container_inserts [of "Thread 7" loaded_pool "[]" "''job''"
      "[(Thread 7, flood), (Thread 8, \<lambda>p. p)]"]
  show ?thesis
    by blast
qed

lemma one_worker_pool:
  "(thread_pool_ctor 1 (ids_from 1) :: string thread_pool) =
     \<lparr>u_size = 1, u_threads = fmupd (Thread 1) (Detaching_thread (Thread 1)) fmempty,
      u_affinity_queues = fmupd (Thread 1) [] fmempty, u_queue = [], u_affinities = [Thread 1],
      u_die_semaphore = 0, u_end = False, tasks_made = 0\<rparr>"
  by (simp add: thread_pool_ctor_def initial_pool_def u_spawn_def subscript_insert_def)

lemma aborted_loop_among:
  "smallest_loop_among [(Thread 7, \<lambda>p. p), (Thread 8, abort)] (- 1, No_thread)
     (thread_pool_ctor 1 (ids_from 1) :: string thread_pool) =
   ((0, Thread 7), abort (thread_pool_ctor 1 (ids_from 1)))"
  unfolding one_worker_pool
  by (simp add: read_size_def note_smallest_def subscript_insert_def subscript_value_def
      queue_size_def abort_def)

lemma aborted_push_among:
  "push_container_among [(Thread 7, \<lambda>p. p), (Thread 8, abort)] ''job''
     (thread_pool_ctor 1 (ids_from 1) :: string thread_pool) =
   push_affinity (Thread 7) ''job'' (abort (thread_pool_ctor 1 (ids_from 1)))"
  unfolding push_container_among_def aborted_loop_among by simp

lemma shrunk_to_none:
  "resize 0 (ids_from 2) (thread_pool_ctor 1 (ids_from 1) :: string thread_pool) =
     \<lparr>u_size = 0, u_threads = fmupd (Thread 1) (Detaching_thread (Thread 1)) fmempty,
      u_affinity_queues = fmupd (Thread 1) [] fmempty, u_queue = [], u_affinities = [Thread 1],
      u_die_semaphore = 1, u_end = False, tasks_made = 0\<rparr>"
  unfolding one_worker_pool by (simp add: resize_def semaphore_notify_def)

lemma retirement_between:
  "u_try_die (Thread 1) (snd (read_size (Thread 8) (snd (read_size (Thread 1)
       (resize 0 (ids_from 2) (thread_pool_ctor 1 (ids_from 1) :: string thread_pool)))))) =
     Inr (True, retired_pool)"
  unfolding shrunk_to_none
  by (simp add: read_size_def u_try_die_def semaphore_try_wait_def subscript_insert_def
      subscript_value_def retired_pool_def Let_def fmdrop_fmupd)

lemma retired_loop_among:
  "smallest_loop_among [(Thread 1, \<lambda>p. p), (Thread 8, retirement)] (- 1, No_thread)
     (resize 0 (ids_from 2) (thread_pool_ctor 1 (ids_from 1) :: string thread_pool)) =
   ((0, Thread 1), retired_pool)"
  unfolding shrunk_to_none
  by (simp add: read_size_def note_smallest_def retirement_def u_try_die_def
      semaphore_try_wait_def subscript_insert_def subscript_value_def retired_pool_def Let_def
      fmdrop_fmupd queue_size_def)

lemma retired_push_among:
  "push_container_among [(Thread 1, \<lambda>p. p), (Thread 8, retirement)] ''job''
     (resize 0 (ids_from 2) (thread_pool_ctor 1 (ids_from 1) :: string thread_pool)) =
   push_affinity (Thread 1) ''job'' retired_pool"
  unfolding push_container_among_def retired_loop_among by simp

text \<open>
  The claim as the spec has it fails when another thread takes keys away while the call
  runs. A pool of one worker, \<open>Thread 1\<close>, accepting work, and the candidates \<open>Thread 7\<close>
  and \<open>Thread 8\<close>: \<^verbatim>\<open>abort\<close> runs after the critical section of the second turn, line 107
  empties the map, line 197 finds no smaller size and reads nothing again, and the call
  throws \<^verbatim>\<open>thread_pool_closed\<close> with neither candidate in the map. With the candidates
  \<open>Thread 1\<close> and \<open>Thread 8\<close> and a permit pending, the worker retires after the critical
  section of the second turn: line 343 erases its queue, and the call throws
  \<^verbatim>\<open>invalid_affinity\<close> with no queue under \<open>Thread 1\<close>.
\<close>

theorem push_container_inserts_counterexample:
  "\<not> u_end (thread_pool_ctor 1 (ids_from 1) :: string thread_pool) \<and>
   fst (push_container_among [(Thread 7, \<lambda>p. p), (Thread 8, abort)] ''job''
     (thread_pool_ctor 1 (ids_from 1))) = Inl Thread_pool_closed \<and>
   Thread 7 |\<notin>| fmdom (u_affinity_queues (snd (push_container_among
     [(Thread 7, \<lambda>p. p), (Thread 8, abort)] ''job'' (thread_pool_ctor 1 (ids_from 1))))) \<and>
   Thread 8 |\<notin>| fmdom (u_affinity_queues (snd (push_container_among
     [(Thread 7, \<lambda>p. p), (Thread 8, abort)] ''job'' (thread_pool_ctor 1 (ids_from 1))))) \<and>
   u_try_die (Thread 1) (snd (read_size (Thread 8) (snd (read_size (Thread 1)
       (resize 0 (ids_from 2) (thread_pool_ctor 1 (ids_from 1) :: string thread_pool)))))) =
     Inr (True, retired_pool) \<and>
   fst (push_container_among [(Thread 1, \<lambda>p. p), (Thread 8, retirement)] ''job''
     (resize 0 (ids_from 2) (thread_pool_ctor 1 (ids_from 1)))) = Inl Invalid_affinity \<and>
   Thread 1 |\<notin>| fmdom (u_affinity_queues (snd (push_container_among
     [(Thread 1, \<lambda>p. p), (Thread 8, retirement)] ''job''
     (resize 0 (ids_from 2) (thread_pool_ctor 1 (ids_from 1))))))"
proof (intro conjI)
  show "\<not> u_end (thread_pool_ctor 1 (ids_from 1) :: string thread_pool)"
    unfolding one_worker_pool by simp
  show "fst (push_container_among [(Thread 7, \<lambda>p. p), (Thread 8, abort)] ''job''
     (thread_pool_ctor 1 (ids_from 1))) = Inl Thread_pool_closed"
    unfolding aborted_push_among by (simp add: push_affinity_def abort_def)
  show "Thread 7 |\<notin>| fmdom (u_affinity_queues (snd (push_container_among
     [(Thread 7, \<lambda>p. p), (Thread 8, abort)] ''job'' (thread_pool_ctor 1 (ids_from 1)))))"
    unfolding aborted_push_among by (simp add: abort_def)
  show "Thread 8 |\<notin>| fmdom (u_affinity_queues (snd (push_container_among
     [(Thread 7, \<lambda>p. p), (Thread 8, abort)] ''job'' (thread_pool_ctor 1 (ids_from 1)))))"
    unfolding aborted_push_among by (simp add: abort_def)
  show "u_try_die (Thread 1) (snd (read_size (Thread 8) (snd (read_size (Thread 1)
       (resize 0 (ids_from 2) (thread_pool_ctor 1 (ids_from 1) :: string thread_pool)))))) =
     Inr (True, retired_pool)"
    by (rule retirement_between)
  show "fst (push_container_among [(Thread 1, \<lambda>p. p), (Thread 8, retirement)] ''job''
     (resize 0 (ids_from 2) (thread_pool_ctor 1 (ids_from 1)))) = Inl Invalid_affinity"
    unfolding retired_push_among by (simp add: push_affinity_def retired_pool_def)
  show "Thread 1 |\<notin>| fmdom (u_affinity_queues (snd (push_container_among
     [(Thread 1, \<lambda>p. p), (Thread 8, retirement)] ''job''
     (resize 0 (ids_from 2) (thread_pool_ctor 1 (ids_from 1))))))"
    unfolding retired_push_among by (simp add: retired_pool_def)
qed

subsection \<open>Submission to a closed pool\<close>

lemma push_closed_pool: "u_end s \<Longrightarrow> push f s = (Inl Thread_pool_closed, s\<lparr>tasks_made := Suc (tasks_made s)\<rparr>)"
  by (simp add: push_def Let_def)

lemma push_affinity_closed_pool:
  "u_end s \<Longrightarrow> push_affinity a f s = (Inl Thread_pool_closed, s\<lparr>tasks_made := Suc (tasks_made s)\<rparr>)"
  by (simp add: push_affinity_def push_def Let_def)

text \<open>
  Claim C1, as the code has it. When the shutdown flag is set, each of the three
  overloads of \<^verbatim>\<open>push\<close> throws \<^verbatim>\<open>thread_pool_closed\<close> and enqueues nothing: the global
  queue is as before and so is the content of the queue of every identity (an identity
  without a queue counting as one with an empty queue). The global and the affinity
  overload leave the pool as it was, except that the packaged task was constructed
  before the flag was read (it is dropped by the throw).
\<close>

theorem push_on_closed_pool:
  assumes closed: "u_end s"
  shows "push f s = (Inl Thread_pool_closed, s\<lparr>tasks_made := Suc (tasks_made s)\<rparr>) \<and>
    push_affinity a f s = (Inl Thread_pool_closed, s\<lparr>tasks_made := Suc (tasks_made s)\<rparr>) \<and>
    fst (push_container affinities f s) = Inl Thread_pool_closed \<and>
    u_queue (snd (push_container affinities f s)) = u_queue s \<and>
    (\<forall>k. subscript_value (u_affinity_queues (snd (push_container affinities f s))) k =
       subscript_value (u_affinity_queues s) k)"
proof -
  define s1 where "s1 = s\<lparr>u_affinity_queues := inserted affinities (u_affinity_queues s)\<rparr>"
  have "u_end s1"
    using closed by (simp add: s1_def)
  then have "push_container affinities f s =
      (Inl Thread_pool_closed, s1\<lparr>tasks_made := Suc (tasks_made s1)\<rparr>)"
    unfolding push_container_forwards s1_def [symmetric] by (rule push_affinity_closed_pool)
  then show ?thesis
    using closed by (simp add: push_closed_pool push_affinity_closed_pool s1_def)
qed

theorem push_on_closed_pool_witness:
  "push ''job'' (abort busy_pool) =
     (Inl Thread_pool_closed, (abort busy_pool)\<lparr>tasks_made := Suc (tasks_made (abort busy_pool))\<rparr>) \<and>
   fst (push_container [Thread 1, Thread 7] ''job'' (abort busy_pool)) = Inl Thread_pool_closed \<and>
   u_queue (snd (push_container [Thread 1, Thread 7] ''job'' (abort busy_pool))) =
     u_queue (abort busy_pool)"
proof -
  have "u_end (abort busy_pool)"
    by (simp add: abort_def)
  from push_on_closed_pool [OF this, of "''job''" No_thread "[Thread 1, Thread 7]"]
  show ?thesis
    by blast
qed

theorem push_on_closed_pool_counterexample:
  "u_end (abort initial_pool :: string thread_pool) \<and>
   tasks_made (snd (push ''job'' (abort initial_pool))) \<noteq>
     tasks_made (abort initial_pool :: string thread_pool) \<and>
   u_affinity_queues (snd (push_container [Thread 7] ''job'' (abort initial_pool))) \<noteq>
     u_affinity_queues (abort initial_pool)"
proof -
  have "fmlookup (u_affinity_queues (snd (push_container [Thread 7] ''job'' (abort initial_pool))))
      (Thread 7) = Some []"
    by (simp add: pool_defs)
  moreover have "fmlookup (u_affinity_queues (abort initial_pool :: string thread_pool)) (Thread 7) = None"
    by (simp add: pool_defs)
  ultimately have "u_affinity_queues (snd (push_container [Thread 7] ''job'' (abort initial_pool))) \<noteq>
     u_affinity_queues (abort initial_pool)"
    by (metis option.distinct(1))
  then show ?thesis
    by (simp add: pool_defs)
qed

subsection \<open>Submission with an identity that has no worker\<close>

lemma push_affinity_invalid:
  "affinity \<noteq> No_thread \<Longrightarrow> \<not> u_end s \<Longrightarrow> affinity |\<notin>| fmdom (u_affinity_queues s) \<Longrightarrow>
   push_affinity affinity f s = (Inl Invalid_affinity, s\<lparr>tasks_made := Suc (tasks_made s)\<rparr>)"
  by (simp add: push_affinity_def Let_def)

text \<open>
  Claim C2, at an input where the code departs from it. A pool of one worker,
  \<open>Thread 1\<close>, accepting work; \<open>Thread 7\<close> is neither in the registry nor in the map of
  queues. The affinity push with \<open>Thread 7\<close> throws \<^verbatim>\<open>invalid_affinity\<close>. The container
  push with the one candidate \<open>Thread 7\<close> returns a future instead, and leaves the task in
  a queue under \<open>Thread 7\<close>: line 194 has inserted that queue, so the test of line 168
  finds it.
\<close>

theorem push_container_unregistered:
  "Thread 7 |\<notin>| fmdom (u_threads (thread_pool_ctor 1 (ids_from 1) :: string thread_pool)) \<and>
   Thread 7 |\<notin>| fmdom (u_affinity_queues (thread_pool_ctor 1 (ids_from 1) :: string thread_pool)) \<and>
   \<not> u_end (thread_pool_ctor 1 (ids_from 1) :: string thread_pool) \<and>
   fst (push_affinity (Thread 7) ''job'' (thread_pool_ctor 1 (ids_from 1))) = Inl Invalid_affinity \<and>
   fst (push_container [Thread 7] ''job'' (thread_pool_ctor 1 (ids_from 1))) = Inr (Future ''job'') \<and>
   fmlookup (u_affinity_queues (snd (push_container [Thread 7] ''job''
     (thread_pool_ctor 1 (ids_from 1))))) (Thread 7) = Some [''job'']"
  by (simp add: pool_defs)

subsection \<open>Allocation of affinities\<close>

lemma spawn_then_allocate:
  "u_affinities s = [] \<Longrightarrow>
   allocate_affinity True i s = (Inr i, (u_spawn i s)\<lparr>u_affinities := []\<rparr>)"
  by (simp add: allocate_affinity_def u_spawn_def)

text \<open>
  Claim C8. \<^verbatim>\<open>allocate_affinity\<close> takes the last identity off a free list that is not
  empty and returns it. On an empty list, with spawning allowed it spawns a worker,
  which registers it, gives it a queue and puts its identity on the list, returns that
  identity and leaves \<^verbatim>\<open>size()\<close> one larger; with spawning disallowed it throws
  \<^verbatim>\<open>free_affinities_exhausted\<close>. On a pool constructed with size 2 (its two threads
  having different identities), two calls without spawning return different identities,
  a third throws, and a call with spawning then returns the identity of the new thread
  and \<^verbatim>\<open>size()\<close> is 3.
\<close>

theorem allocate_affinity_pops:
  "(u_affinities s \<noteq> [] \<longrightarrow>
      allocate_affinity insert' i s =
        (Inr (last (u_affinities s)), s\<lparr>u_affinities := butlast (u_affinities s)\<rparr>)) \<and>
   (u_affinities s = [] \<longrightarrow>
      allocate_affinity True i s = (Inr i, (u_spawn i s)\<lparr>u_affinities := []\<rparr>) \<and>
      fmlookup (u_threads (snd (allocate_affinity True i s))) i = Some (Detaching_thread i) \<and>
      i |\<in>| fmdom (u_affinity_queues (snd (allocate_affinity True i s))) \<and>
      u_affinities (u_spawn i s) = [i] \<and>
      size_pool (snd (allocate_affinity True i s)) = size_pool s + 1 \<and>
      allocate_affinity False i s = (Inl Free_affinities_exhausted, s)) \<and>
   (i1 \<noteq> i2 \<longrightarrow>
      (\<exists>t1 t2 p1 p2.
         allocate_affinity False i (thread_pool_ctor 2 (i1 ## i2 ## ids)) = (Inr t1, p1) \<and>
         allocate_affinity False i p1 = (Inr t2, p2) \<and> t1 \<noteq> t2 \<and>
         allocate_affinity False i p2 = (Inl Free_affinities_exhausted, p2) \<and>
         fst (allocate_affinity True i3 p2) = Inr i3 \<and>
         size_pool (snd (allocate_affinity True i3 p2)) = 3))"
proof (intro conjI impI)
  assume "i1 \<noteq> i2"
  then show "\<exists>t1 t2 p1 p2.
         allocate_affinity False i (thread_pool_ctor 2 (i1 ## i2 ## ids)) = (Inr t1, p1) \<and>
         allocate_affinity False i p1 = (Inr t2, p2) \<and> t1 \<noteq> t2 \<and>
         allocate_affinity False i p2 = (Inl Free_affinities_exhausted, p2) \<and>
         fst (allocate_affinity True i3 p2) = Inr i3 \<and>
         size_pool (snd (allocate_affinity True i3 p2)) = 3"
    by (simp add: thread_pool_ctor_def initial_pool_def allocate_affinity_def u_spawn_def size_pool_def)
qed (simp_all add: allocate_affinity_def u_spawn_def size_pool_def)

theorem allocate_affinity_pops_witness:
  "\<exists>t1 t2 p1 p2.
     allocate_affinity False (Thread 3) (thread_pool_ctor 2 (Thread 1 ## Thread 2 ## ids_from 3)
       :: string thread_pool) = (Inr t1, p1) \<and>
     allocate_affinity False (Thread 3) p1 = (Inr t2, p2) \<and> t1 \<noteq> t2 \<and>
     allocate_affinity False (Thread 3) p2 = (Inl Free_affinities_exhausted, p2) \<and>
     fst (allocate_affinity True (Thread 3) p2) = Inr (Thread 3) \<and>
     size_pool (snd (allocate_affinity True (Thread 3) p2)) = 3"
proof -
  have "Thread 1 \<noteq> Thread 2"
    by simp
  with allocate_affinity_pops [of busy_pool False "Thread 3" "Thread 1" "Thread 2" "ids_from 3" "Thread 3"]
  show ?thesis
    by blast
qed



subsection \<open>The live-worker count and the registry\<close>

lemma spawn_fresh_counts:
  "i |\<notin>| fmdom (u_threads s) \<Longrightarrow>
   u_size (u_spawn i s) = u_size s + 1 \<and>
   fcard (fmdom (u_threads (u_spawn i s))) = fcard (fmdom (u_threads s)) + 1"
  by (simp add: u_spawn_def fcard_finsert_disjoint)

lemma spawn_fresh_agrees:
  assumes fresh: "i |\<notin>| fmdom (u_threads s)" and room: "u_size s \<noteq> - 1"
    and agrees: "count_agrees s"
  shows "count_agrees (u_spawn i s)"
proof -
  have "1 + u_size s \<noteq> 0"
    using room by (metis add.commute add_eq_0_iff)
  then have "unat (1 + u_size s) = Suc (unat (u_size s))"
    by (rule unatSuc)
  then have "unat (u_size s + 1) = unat (u_size s) + 1"
    by (simp add: add.commute)
  then show ?thesis
    using spawn_fresh_counts [OF fresh] agrees by (simp add: count_agrees_def)
qed

lemma try_die_retired:
  assumes "u_try_die me s = Inr (True, s')"
  shows "u_size s' = u_size s - 1 \<and> u_threads s' = fmdrop me (u_threads s) \<and>
    me |\<in>| fmdom (u_threads s) \<and> me \<in> set (u_affinities s) \<and>
    u_affinities s' = remove1 me (u_affinities s) \<and>
    u_affinity_queues s' = fmdrop me (u_affinity_queues s) \<and>
    subscript_value (u_affinity_queues s) me = [] \<and>
    Suc (u_die_semaphore s') = u_die_semaphore s \<and>
    u_queue s' = u_queue s \<and> u_end s' = u_end s \<and> tasks_made s' = tasks_made s"
  using assms
  by (auto simp: u_try_die_def semaphore_try_wait_def semaphore_notify_def Let_def
      subscript_insert_def subscript_value_def fmdrop_fmupd_same fmdrop_idle
      split: option.splits if_splits dest: fmdom_notI)

lemma retired_counts:
  assumes "u_try_die me s = Inr (True, s')"
  shows "fcard (fmdom (u_threads s')) + 1 = fcard (fmdom (u_threads s))"
proof -
  from try_die_retired [OF assms]
  have drop: "u_threads s' = fmdrop me (u_threads s)" and there: "me |\<in>| fmdom (u_threads s)"
    by simp_all
  have "fcard (fmdom (u_threads s)) = Suc (fcard (fmdom (u_threads s) |-| {|me|}))"
    using there by (rule fcard_Suc_fminus1 [symmetric])
  then show ?thesis
    by (simp add: drop)
qed

lemma resize_down:
  "new_size < u_size s \<Longrightarrow>
   resize new_size ids s =
     s\<lparr>u_die_semaphore := u_die_semaphore s + unat (u_size s - new_size), u_size := new_size\<rparr>"
  by (auto simp: resize_def semaphore_notify_def)

lemma stake_unat_less:
  fixes x new_size :: size_t
  assumes "x < new_size"
  shows "stake (unat (new_size - x)) ids = shd ids # stake (unat (new_size - (x + 1))) (stl ids)"
proof -
  from assms have "new_size - x \<noteq> 0"
    by auto
  then have "unat (new_size - x) = Suc (unat (new_size - x - 1))"
    by (simp add: unat_minus_one unat_gt_0)
  moreover have "new_size - (x + 1) = new_size - x - 1"
    by simp
  ultimately have "stake (unat (new_size - x)) ids =
      stake (Suc (unat (new_size - (x + 1)))) ids"
    by (simp only:)
  then show ?thesis
    by simp
qed

lemma spawn_until_agrees:
  "count_agrees s \<Longrightarrow> u_size s \<le> new_size \<Longrightarrow>
   distinct (stake (unat (new_size - u_size s)) ids) \<Longrightarrow>
   (\<forall>i\<in>set (stake (unat (new_size - u_size s)) ids). i |\<notin>| fmdom (u_threads s)) \<Longrightarrow>
   count_agrees (spawn_until new_size ids s) \<and> u_size (spawn_until new_size ids s) = new_size"
proof (induction new_size ids s rule: spawn_until.induct)
  case (1 new_size ids s)
  show ?case
  proof (cases "u_size s < new_size")
    case False
    with "1.prems" show ?thesis
      by (simp add: spawn_until.simps [of new_size ids s])
  next
    case True
    let ?s = "u_spawn (shd ids) s"
    have split: "stake (unat (new_size - u_size s)) ids =
        shd ids # stake (unat (new_size - u_size ?s)) (stl ids)"
      using stake_unat_less [OF True] by (simp add: u_spawn_def)
    have fresh: "shd ids |\<notin>| fmdom (u_threads s)"
      using "1.prems"(4) split by simp
    have room: "u_size s \<noteq> - 1"
      using True by auto
    have agrees: "count_agrees ?s"
      using fresh room "1.prems"(1) by (rule spawn_fresh_agrees)
    have le: "u_size ?s \<le> new_size"
      using True by (simp add: u_spawn_def inc_le)
    have dist: "distinct (stake (unat (new_size - u_size ?s)) (stl ids))"
      using "1.prems"(3) split by simp
    have rest: "\<forall>i\<in>set (stake (unat (new_size - u_size ?s)) (stl ids)). i |\<notin>| fmdom (u_threads ?s)"
      using "1.prems"(3,4) split by (auto simp: u_spawn_def)
    from "1.IH" [OF True agrees le dist rest] show ?thesis
      using True by (simp add: spawn_until.simps [of new_size ids s])
  qed
qed

text \<open>
  A \<^verbatim>\<open>resize\<close> to a larger size keeps the count and the registry in agreement, the
  threads it starts having identities that are new and different. A \<^verbatim>\<open>resize\<close> to a
  smaller size followed by a retirement never does: line 238 has set the count to the
  new size while the workers to retire are still registered, and line 346 decrements it
  again for each of them.
\<close>

lemma grow_agrees:
  assumes "count_agrees s" and "u_size s < new_size"
    and "distinct (stake (unat (new_size - u_size s)) ids)"
    and "\<forall>i\<in>set (stake (unat (new_size - u_size s)) ids). i |\<notin>| fmdom (u_threads s)"
  shows "count_agrees (resize new_size ids s)"
proof -
  have "count_agrees (spawn_until new_size ids s)"
    using assms spawn_until_agrees [of s new_size ids] by (simp add: less_imp_le)
  moreover have "resize new_size ids s = spawn_until new_size ids s"
    using assms(2) by (auto simp: resize_def)
  ultimately show ?thesis
    by simp
qed

lemma shrink_then_retire_disagrees:
  assumes agrees: "count_agrees s" and shrink: "smaller < u_size s"
    and retired: "u_try_die me (resize smaller ids s) = Inr (True, s')"
  shows "\<not> count_agrees s'"
proof -
  let ?r = "resize smaller ids s"
  have r: "u_size ?r = smaller" "u_threads ?r = u_threads s"
    using shrink by (simp_all add: resize_down)
  from try_die_retired [OF retired] have size: "u_size s' = smaller - 1"
    by (simp add: r)
  from retired_counts [OF retired]
  have "fcard (fmdom (u_threads s')) + 1 = fcard (fmdom (u_threads s))"
    by (simp add: r)
  with agrees have count: "fcard (fmdom (u_threads s')) + 1 = unat (u_size s)"
    by (simp add: count_agrees_def)
  have less: "unat smaller < unat (u_size s)"
    using shrink by (simp add: word_less_nat_alt)
  have "unat (smaller - 1) + 1 \<noteq> unat (u_size s)"
  proof (cases "smaller = 0")
    case True
    have "unat (u_size s) < 2 ^ 64"
      using unsigned_less [of "u_size s"] by simp
    moreover have "unat (- 1 :: size_t) = 2 ^ 64 - 1"
      by (simp add: unsigned_minus_1_eq_mask mask_eq_exp_minus_1)
    ultimately show ?thesis
      using True by simp
  next
    case False
    then have "unat (smaller - 1) = unat smaller - 1" and "0 < unat smaller"
      by (simp_all add: unat_minus_one unat_gt_0)
    then show ?thesis
      using less by simp
  qed
  then show ?thesis
    using count size by (simp add: count_agrees_def)
qed

text \<open>
  Claim C3, at an input where the code departs from it. A pool constructed with size 2:
  the count is 2 and the registry has two entries. \<^verbatim>\<open>resize(1)\<close> sets the count to 1 at
  once (line 238) and issues one permit, both workers still registered. The worker
  \<open>Thread 2\<close>, idle and with its identity on the free list, consumes the permit and
  retires: line 345 takes its entry out of the registry and line 346 takes one off the
  count a second time, so \<^verbatim>\<open>size()\<close> is 0 with one worker registered. On a pool
  constructed with size 3, \<^verbatim>\<open>resize(1)\<close> and the two retirements leave \<^verbatim>\<open>size()\<close> at
  \<open>2 ^ 64 - 1\<close> with one worker registered.
\<close>

theorem shrink_then_retire:
  "count_agrees (thread_pool_ctor 2 (ids_from 1) :: string thread_pool) \<and>
   size_pool (resize 1 (ids_from 3) (thread_pool_ctor 2 (ids_from 1) :: string thread_pool)) = 1 \<and>
   fmdom (u_threads (resize 1 (ids_from 3) (thread_pool_ctor 2 (ids_from 1) :: string thread_pool))) =
     {|Thread 1, Thread 2|} \<and>
   (\<exists>p. u_try_die (Thread 2)
           (resize 1 (ids_from 3) (thread_pool_ctor 2 (ids_from 1) :: string thread_pool)) =
         Inr (True, p) \<and>
       size_pool p = 0 \<and> fmdom (u_threads p) = {|Thread 1|}) \<and>
   (\<exists>p q. u_try_die (Thread 3)
           (resize 1 (ids_from 4) (thread_pool_ctor 3 (ids_from 1) :: string thread_pool)) =
         Inr (True, p) \<and>
       u_try_die (Thread 2) p = Inr (True, q) \<and>
       size_pool q = - 1 \<and> fmdom (u_threads q) = {|Thread 1|})"
proof (intro conjI)
  show "count_agrees (thread_pool_ctor 2 (ids_from 1) :: string thread_pool)"
    by (simp add: pool_defs count_agrees_def fcard_finsert_disjoint)
  show "size_pool (resize 1 (ids_from 3) (thread_pool_ctor 2 (ids_from 1) :: string thread_pool)) = 1"
    by (simp add: pool_defs)
  show "fmdom (u_threads (resize 1 (ids_from 3) (thread_pool_ctor 2 (ids_from 1) :: string thread_pool))) =
     {|Thread 1, Thread 2|}"
    by (auto simp: pool_defs)
  show "\<exists>p. u_try_die (Thread 2)
           (resize 1 (ids_from 3) (thread_pool_ctor 2 (ids_from 1) :: string thread_pool)) =
         Inr (True, p) \<and>
       size_pool p = 0 \<and> fmdom (u_threads p) = {|Thread 1|}"
    by (simp add: pool_defs fmdrop_fmupd)
  show "\<exists>p q. u_try_die (Thread 3)
           (resize 1 (ids_from 4) (thread_pool_ctor 3 (ids_from 1) :: string thread_pool)) =
         Inr (True, p) \<and>
       u_try_die (Thread 2) p = Inr (True, q) \<and>
       size_pool q = - 1 \<and> fmdom (u_threads q) = {|Thread 1|}"
    by (simp add: pool_defs fmdrop_fmupd)
qed

subsection \<open>Retirement\<close>

lemma try_die_no_permit:
  "u_die_semaphore s = 0 \<Longrightarrow> u_try_die me s = Inr (False, s)"
  by (simp add: u_try_die_def semaphore_try_wait_def)

lemma try_die_busy:
  assumes permit: "0 < u_die_semaphore s" and busy: "subscript_value (u_affinity_queues s) me \<noteq> []"
  shows "u_try_die me s = Inr (False, s)"
proof -
  from busy have "me |\<in>| fmdom (u_affinity_queues s)"
    by (auto simp: subscript_value_def split: option.splits intro: fmdomI)
  then have "subscript_insert (u_affinity_queues s) me = u_affinity_queues s"
    by (rule subscript_insert_present)
  then show ?thesis
    using permit busy
    by (simp add: u_try_die_def semaphore_try_wait_def semaphore_notify_def Let_def)
qed

lemma try_die_idle_free:
  assumes permit: "0 < u_die_semaphore s" and idle: "subscript_value (u_affinity_queues s) me = []"
    and free: "me \<in> set (u_affinities s)" and registered: "me |\<in>| fmdom (u_threads s)"
  shows "u_try_die me s =
    Inr (True, s\<lparr>u_die_semaphore := u_die_semaphore s - 1,
                  u_affinities := remove1 me (u_affinities s),
                  u_affinity_queues := fmdrop me (u_affinity_queues s),
                  u_threads := fmdrop me (u_threads s),
                  u_size := u_size s - 1\<rparr>)"
  using assms
  by (auto simp: u_try_die_def semaphore_try_wait_def Let_def subscript_insert_def
      subscript_value_def fmdrop_fmupd_same fmdrop_idle split: option.splits dest: fmdom_notI)

lemma try_die_idle_claimed:
  assumes permit: "0 < u_die_semaphore s" and idle: "subscript_value (u_affinity_queues s) me = []"
    and claimed: "me \<notin> set (u_affinities s)"
  shows "u_try_die me s = Inl Erase_end_affinities"
  using assms
  by (simp add: u_try_die_def semaphore_try_wait_def Let_def)

text \<open>
  Claim C4, at an input where the code departs from it. A pool of one worker,
  \<open>Thread 1\<close>; \<^verbatim>\<open>allocate_affinity\<close> hands out \<open>Thread 1\<close> and leaves the free list
  empty; \<^verbatim>\<open>resize(0)\<close> issues a permit. The worker's queue is empty, so it consumes
  the permit and goes on to line 342, where \<^verbatim>\<open>std::find\<close> yields the end iterator of
  \<^verbatim>\<open>_affinities\<close> and \<^verbatim>\<open>erase\<close> is called with it.
\<close>

theorem try_die_claimed_affinity:
  "allocate_affinity False (Thread 9) (thread_pool_ctor 1 (ids_from 1) :: string thread_pool) =
     (Inr (Thread 1), (thread_pool_ctor 1 (ids_from 1))\<lparr>u_affinities := []\<rparr>) \<and>
   u_try_die (Thread 1)
     (resize 0 (ids_from 2) ((thread_pool_ctor 1 (ids_from 1) :: string thread_pool)\<lparr>u_affinities := []\<rparr>)) =
     Inl Erase_end_affinities"
  by (simp add: pool_defs)

subsection \<open>The threads started\<close>

text \<open>
  When no worker runs before the constructor returns, the constructor leaves the pool of
  \<open>thread_pool_ctor\<close> with its workers at the head of their loops; when no worker runs
  while \<^verbatim>\<open>resize\<close> or \<^verbatim>\<open>allocate_affinity\<close> spawns, the steps of the call leave the
  pool of \<open>resize\<close> and of \<open>allocate_affinity\<close>.
\<close>

lemma ctor_loop_fold: "ctor_loop n ids s = fold u_spawn (stake (unat n) ids) s"
proof (induction n ids s rule: ctor_loop.induct)
  case (1 n ids s)
  show ?case
  proof (cases "n = 0")
    case True
    then show ?thesis
      by (simp add: ctor_loop.simps [of n ids s])
  next
    case False
    then have "unat n = Suc (unat (n - 1))"
      by (simp add: unat_minus_one unat_gt_0)
    then show ?thesis
      using "1.IH" [OF False] False by (simp add: ctor_loop.simps [of n ids s])
  qed
qed

lemma new_system_threads:
  "pool (new_system n ids) = fold u_spawn (stake (unat n) ids) initial_pool"
  by (simp add: new_system_def thread_pool_ctor_def ctor_loop_fold)

lemma run_append: "run (evs @ evs') sys = run evs' (run evs sys)"
  by (induction evs arbitrary: sys) simp_all

lemma quiet_started:
  assumes "quiet sys"
  shows "quiet (sys\<lparr>workers := fmupd i Loop_head (workers sys), spawning := x\<rparr>) \<and>
    \<not> queues_busy (sys\<lparr>workers := fmupd i Loop_head (workers sys), spawning := x\<rparr>) No_thread \<and>
    \<not> threads_read (sys\<lparr>workers := fmupd i Loop_head (workers sys), spawning := x\<rparr>) No_thread"
  using assms by (auto simp: quiet_def queues_busy_def threads_read_def fmpred_iff)

lemma spawn_quiet:
  assumes rest: "quiet sys" and spawning: "spawning sys = Some (Constructor n ids None)"
    and more: "n \<noteq> 0" and fresh: "shd ids \<noteq> No_thread" "\<not> live sys (shd ids)"
  shows "run [Spawner, Spawner] sys =
    sys\<lparr>pool := u_spawn (shd ids) (pool sys), workers := fmupd (shd ids) Loop_head (workers sys),
        spawning := Some (Constructor (n - 1) (stl ids) None)\<rparr>"
proof -
  let ?s1 = "sys\<lparr>workers := fmupd (shd ids) Loop_head (workers sys),
    spawning := Some (Constructor (n - 1) (stl ids) (Some (shd ids)))\<rparr>"
  have one: "step Spawner sys = ?s1"
    using rest spawning more fresh
    by (simp add: step_def quiet_def start_thread_def may_start_def start_def)
  have "step Spawner ?s1 =
    sys\<lparr>pool := u_spawn (shd ids) (pool sys), workers := fmupd (shd ids) Loop_head (workers sys),
        spawning := Some (Constructor (n - 1) (stl ids) None)\<rparr>"
    using rest quiet_started [OF rest, where i = "shd ids"
        and x = "Some (Constructor (n - 1) (stl ids) (Some (shd ids)))"]
    by (simp add: step_def quiet_def register_def)
  then show ?thesis
    by (simp add: one)
qed

lemma constructor_quiet:
  assumes "unat n = k" and "quiet sys" and "spawning sys = Some (Constructor n ids None)"
    and "distinct (stake k ids)" and "\<forall>i\<in>set (stake k ids). i \<noteq> No_thread \<and> \<not> live sys i"
  shows "run (replicate (2 * k + 1) Spawner) sys =
    sys\<lparr>pool := ctor_loop n ids (pool sys), workers := start (stake k ids) (workers sys),
        spawning := None\<rparr>"
  using assms
proof (induction k arbitrary: n ids sys)
  case 0
  then have "n = 0"
    by (simp add: unat_eq_zero)
  then show ?case
    using 0 by (simp add: step_def quiet_def start_def)
next
  case (Suc k)
  let ?s2 = "sys\<lparr>pool := u_spawn (shd ids) (pool sys),
    workers := fmupd (shd ids) Loop_head (workers sys),
    spawning := Some (Constructor (n - 1) (stl ids) None)\<rparr>"
  from Suc.prems(1) have more: "n \<noteq> 0"
    by auto
  then have less: "unat (n - 1) = k"
    using Suc.prems(1) by (simp add: unat_minus_one)
  have fresh: "shd ids \<noteq> No_thread" "\<not> live sys (shd ids)"
    using Suc.prems(5) by simp_all
  have two: "run [Spawner, Spawner] sys = ?s2"
    using Suc.prems(2,3) more fresh by (rule spawn_quiet)
  have rest: "quiet ?s2"
    using Suc.prems(2) by (auto simp: quiet_def fmpred_iff)
  have rest_fresh: "\<forall>i\<in>set (stake k (stl ids)). i \<noteq> No_thread \<and> \<not> live ?s2 i"
    using Suc.prems(4,5) by (auto simp: live_def)
  have later: "run (replicate (2 * k + 1) Spawner) ?s2 =
    ?s2\<lparr>pool := ctor_loop (n - 1) (stl ids) (pool ?s2),
         workers := start (stake k (stl ids)) (workers ?s2), spawning := None\<rparr>"
    using less rest _ _ rest_fresh
  proof (rule Suc.IH)
    show "spawning ?s2 = Some (Constructor (n - 1) (stl ids) None)"
      by simp
    show "distinct (stake k (stl ids))"
      using Suc.prems(4) by simp
  qed
  have split: "replicate (2 * Suc k + 1) Spawner = [Spawner, Spawner] @ replicate (2 * k + 1) Spawner"
    by simp
  have "run (replicate (2 * Suc k + 1) Spawner) sys =
    run (replicate (2 * k + 1) Spawner) (run [Spawner, Spawner] sys)"
    unfolding split by (rule run_append)
  also have "\<dots> = ?s2\<lparr>pool := ctor_loop (n - 1) (stl ids) (pool ?s2),
         workers := start (stake k (stl ids)) (workers ?s2), spawning := None\<rparr>"
    by (simp only: two later)
  also have "\<dots> = sys\<lparr>pool := ctor_loop n ids (pool sys),
      workers := start (stake (Suc k) ids) (workers sys), spawning := None\<rparr>"
    using more by (simp add: ctor_loop.simps [of n ids] start_def)
  finally show ?case .
qed

lemma constructor_returns:
  assumes "distinct (stake (unat n) ids)" and "No_thread \<notin> set (stake (unat n) ids)"
  shows "run (replicate (2 * unat n + 1) Spawner) (constructing n ids) = new_system n ids"
proof -
  have "run (replicate (2 * unat n + 1) Spawner) (constructing n ids) =
    (constructing n ids)\<lparr>pool := ctor_loop n ids (pool (constructing n ids)),
      workers := start (stake (unat n) ids) (workers (constructing n ids)), spawning := None\<rparr>"
    using refl _ _ assms(1)
  proof (rule constructor_quiet)
    show "quiet (constructing n ids)"
      by (simp add: quiet_def constructing_def)
    show "spawning (constructing n ids) = Some (Constructor n ids None)"
      by (simp add: constructing_def)
    show "\<forall>i\<in>set (stake (unat n) ids). i \<noteq> No_thread \<and> \<not> live (constructing n ids) i"
      using assms(2) by (auto simp: live_def constructing_def)
  qed
  then show ?thesis
    by (simp add: constructing_def new_system_def thread_pool_ctor_def)
qed

lemma respawn_quiet:
  assumes rest: "quiet sys" and spawning: "spawning sys = Some (Resizer new_size ids None)"
    and more: "u_size (pool sys) < new_size"
    and fresh: "shd ids \<noteq> No_thread" "\<not> live sys (shd ids)"
  shows "run [Spawner, Spawner] sys =
    sys\<lparr>pool := u_spawn (shd ids) (pool sys), workers := fmupd (shd ids) Loop_head (workers sys),
        spawning := Some (Resizer new_size (stl ids) None)\<rparr>"
proof -
  let ?s1 = "sys\<lparr>workers := fmupd (shd ids) Loop_head (workers sys),
    spawning := Some (Resizer new_size (stl ids) (Some (shd ids)))\<rparr>"
  have one: "step Spawner sys = ?s1"
    using rest spawning more fresh
    by (simp add: step_def quiet_def start_thread_def may_start_def start_def)
  have "step Spawner ?s1 =
    sys\<lparr>pool := u_spawn (shd ids) (pool sys), workers := fmupd (shd ids) Loop_head (workers sys),
        spawning := Some (Resizer new_size (stl ids) None)\<rparr>"
    using rest quiet_started [OF rest, where i = "shd ids"
        and x = "Some (Resizer new_size (stl ids) (Some (shd ids)))"]
    by (simp add: step_def quiet_def register_def)
  then show ?thesis
    by (simp add: one)
qed

lemma resizer_quiet:
  assumes "unat (new_size - u_size (pool sys)) = k" and "u_size (pool sys) \<le> new_size"
    and "quiet sys" and "spawning sys = Some (Resizer new_size ids None)"
    and "distinct (stake k ids)" and "\<forall>i\<in>set (stake k ids). i \<noteq> No_thread \<and> \<not> live sys i"
  shows "run (replicate (2 * k + 1) Spawner) sys =
    sys\<lparr>pool := spawn_until new_size ids (pool sys), workers := start (stake k ids) (workers sys),
        spawning := None\<rparr>"
  using assms
proof (induction k arbitrary: ids sys)
  case 0
  then have "u_size (pool sys) = new_size"
    by (simp add: unat_eq_zero)
  then show ?case
    using 0 by (simp add: step_def quiet_def start_def spawn_until.simps [of new_size ids])
next
  case (Suc k)
  let ?s2 = "sys\<lparr>pool := u_spawn (shd ids) (pool sys),
    workers := fmupd (shd ids) Loop_head (workers sys),
    spawning := Some (Resizer new_size (stl ids) None)\<rparr>"
  from Suc.prems(1) have "new_size - u_size (pool sys) \<noteq> 0"
    by auto
  with Suc.prems(2) have more: "u_size (pool sys) < new_size"
    by auto
  have eq: "new_size - u_size (pool ?s2) = new_size - u_size (pool sys) - 1"
    by (simp add: u_spawn_def)
  have "unat (new_size - u_size (pool sys) - 1) = k"
    using Suc.prems(1) \<open>new_size - u_size (pool sys) \<noteq> 0\<close> by (simp add: unat_minus_one)
  then have less: "unat (new_size - u_size (pool ?s2)) = k"
    by (simp only: eq)
  have le: "u_size (pool ?s2) \<le> new_size"
    using more by (simp add: u_spawn_def inc_le)
  have fresh: "shd ids \<noteq> No_thread" "\<not> live sys (shd ids)"
    using Suc.prems(6) by simp_all
  have two: "run [Spawner, Spawner] sys = ?s2"
    using Suc.prems(3,4) more fresh by (rule respawn_quiet)
  have rest: "quiet ?s2"
    using Suc.prems(3) by (auto simp: quiet_def fmpred_iff)
  have rest_fresh: "\<forall>i\<in>set (stake k (stl ids)). i \<noteq> No_thread \<and> \<not> live ?s2 i"
    using Suc.prems(5,6) by (auto simp: live_def)
  have later: "run (replicate (2 * k + 1) Spawner) ?s2 =
    ?s2\<lparr>pool := spawn_until new_size (stl ids) (pool ?s2),
         workers := start (stake k (stl ids)) (workers ?s2), spawning := None\<rparr>"
    using less le rest _ _ rest_fresh
  proof (rule Suc.IH)
    show "spawning ?s2 = Some (Resizer new_size (stl ids) None)"
      by simp
    show "distinct (stake k (stl ids))"
      using Suc.prems(5) by simp
  qed
  have split: "replicate (2 * Suc k + 1) Spawner = [Spawner, Spawner] @ replicate (2 * k + 1) Spawner"
    by simp
  have "run (replicate (2 * Suc k + 1) Spawner) sys =
    run (replicate (2 * k + 1) Spawner) (run [Spawner, Spawner] sys)"
    unfolding split by (rule run_append)
  also have "\<dots> = ?s2\<lparr>pool := spawn_until new_size (stl ids) (pool ?s2),
         workers := start (stake k (stl ids)) (workers ?s2), spawning := None\<rparr>"
    by (simp only: two later)
  also have "\<dots> = sys\<lparr>pool := spawn_until new_size ids (pool sys),
      workers := start (stake (Suc k) ids) (workers sys), spawning := None\<rparr>"
    using more by (simp add: spawn_until.simps [of new_size ids] start_def)
  finally show ?case .
qed

lemma resize_by_steps:
  assumes "quiet sys" and "callable sys" and "u_size (pool sys) < new_size"
    and "distinct (stake (unat (new_size - u_size (pool sys))) ids)"
    and "\<forall>i\<in>set (stake (unat (new_size - u_size (pool sys))) ids). i \<noteq> No_thread \<and> \<not> live sys i"
  shows "run (Call_resize new_size ids #
      replicate (2 * unat (new_size - u_size (pool sys)) + 1) Spawner) sys =
    sys\<lparr>pool := resize new_size ids (pool sys),
        workers := start (stake (unat (new_size - u_size (pool sys))) ids) (workers sys)\<rparr>"
proof -
  let ?s1 = "sys\<lparr>spawning := Some (Resizer new_size ids None)\<rparr>"
  let ?k = "unat (new_size - u_size (pool sys))"
  have one: "step (Call_resize new_size ids) sys = ?s1"
    using assms(1,2,3) by (simp add: step_def quiet_def)
  have "run (replicate (2 * ?k + 1) Spawner) ?s1 =
    ?s1\<lparr>pool := spawn_until new_size ids (pool ?s1), workers := start (stake ?k ids) (workers ?s1),
        spawning := None\<rparr>"
  proof (rule resizer_quiet)
    show "quiet ?s1"
      using assms(1) by (simp add: quiet_def)
    show "u_size (pool ?s1) \<le> new_size"
      using assms(3) by simp
    show "\<forall>i\<in>set (stake ?k ids). i \<noteq> No_thread \<and> \<not> live ?s1 i"
      using assms(5) by (simp add: live_def)
  qed (simp_all add: assms(4))
  moreover have "resize new_size ids (pool sys) = spawn_until new_size ids (pool sys)"
    using assms(3) by (auto simp: resize_def)
  moreover have "spawning sys = None"
    using assms(2) by (simp add: callable_def)
  ultimately show ?thesis
    by (simp add: one)
qed

lemma allocate_by_steps:
  assumes "quiet sys" and "callable sys" and "u_affinities (pool sys) = []"
    and "i \<noteq> No_thread" and "\<not> live sys i"
  shows "run [Call_allocate_affinity True i, Spawner] sys =
    sys\<lparr>pool := snd (allocate_affinity True i (pool sys)),
        workers := fmupd i Loop_head (workers sys)\<rparr>"
proof -
  let ?s1 = "sys\<lparr>workers := fmupd i Loop_head (workers sys), spawning := Some (Allocator i)\<rparr>"
  have one: "step (Call_allocate_affinity True i) sys = ?s1"
    using assms by (simp add: step_def quiet_def start_thread_def may_start_def start_def)
  have "step Spawner ?s1 = ?s1\<lparr>pool := snd (allocate_affinity True i (pool sys)), spawning := None\<rparr>"
    using assms(1) quiet_started [OF assms(1), where i = i and x = "Some (Allocator i)"]
    by (simp add: step_def quiet_def)
  moreover have "spawning sys = None"
    using assms(2) by (simp add: callable_def)
  ultimately show ?thesis
    by (simp add: one)
qed

subsection \<open>The order of the tasks of an affinity\<close>

text \<open>
  Every step of every thread keeps the account of every queue. The calls other than
  \<^verbatim>\<open>push\<close> leave the queues as they are, or empty them (\<^verbatim>\<open>abort\<close>); the affinity
  \<^verbatim>\<open>push\<close> appends to one queue; a worker moves the front of its own queue or of the
  global queue to its hands, and from its hands to the tasks run.
\<close>

lemma same_queues_refl [simp]: "same_queues p p"
  by (simp add: same_queues_def)

lemma same_queues_spawn [simp]: "same_queues p (u_spawn i p)"
  by (simp add: same_queues_def u_spawn_def)

lemma same_queues_subscript [simp]:
  "same_queues p (p\<lparr>u_affinity_queues := subscript_insert (u_affinity_queues p) a\<rparr>)"
  by (simp add: same_queues_def)

lemma same_queues_inserted [simp]:
  "same_queues p (p\<lparr>u_affinity_queues := inserted affinities (u_affinity_queues p)\<rparr>)"
  by (simp add: same_queues_def)

lemma same_queues_resize: "\<not> u_size p < new_size \<Longrightarrow> same_queues p (resize new_size ids p)"
  by (simp add: resize_def same_queues_def)

lemma same_queues_allocate: "same_queues p (snd (allocate_affinity insert' i p))"
  by (simp add: allocate_affinity_def Let_def) (simp add: same_queues_def u_spawn_def)

lemma same_queues_try_die:
  "u_try_die me p = Inr (died, p') \<Longrightarrow> same_queues p p'"
  by (auto simp: u_try_die_def semaphore_try_wait_def semaphore_notify_def Let_def
      same_queues_def subscript_value_def subscript_insert_def
      split: option.splits if_splits)

lemma push_affinity_cases:
  "(fst (push_affinity a f p) = Inr (Future f) \<and> a \<noteq> No_thread \<and> \<not> u_end p \<and>
      u_end (snd (push_affinity a f p)) = u_end p \<and>
      u_queue (snd (push_affinity a f p)) = u_queue p \<and>
      (\<forall>b. subscript_value (u_affinity_queues (snd (push_affinity a f p))) b =
         (if b = a then subscript_value (u_affinity_queues p) a @ [f]
          else subscript_value (u_affinity_queues p) b))) \<or>
   (fst (push_affinity a f p) = Inr (Future f) \<and> a = No_thread \<and> \<not> u_end p \<and>
      u_end (snd (push_affinity a f p)) = u_end p \<and>
      u_queue (snd (push_affinity a f p)) = u_queue p @ [f] \<and>
      (\<forall>b. subscript_value (u_affinity_queues (snd (push_affinity a f p))) b =
         subscript_value (u_affinity_queues p) b)) \<or>
   (isl (fst (push_affinity a f p)) \<and> same_queues p (snd (push_affinity a f p)))"
proof (cases "a = No_thread")
  case True
  then show ?thesis
    by (auto simp: push_affinity_def push_def Let_def same_queues_def)
next
  case other: False
  show ?thesis
  proof (cases "u_end p \<or> a |\<notin>| fmdom (u_affinity_queues p)")
    case True
    then show ?thesis
      using other by (auto simp: push_affinity_def Let_def same_queues_def)
  next
    case False
    then have "subscript_insert (u_affinity_queues p) a = u_affinity_queues p"
      by (simp add: subscript_insert_present)
    then show ?thesis
      using other False by (simp add: push_affinity_def Let_def subscript_value_def)
  qed
qed

lemma lookup_start:
  "fmlookup (start ts ws) a = (if a \<in> set ts then Some Loop_head else fmlookup ws a)"
  unfolding start_def by (induction ts arbitrary: ws) auto

lemmas ledger_defs = sound_def ledger_def global_ledger_def runs_own_def executed_from_def
  accepted_for_def held_def queue_of_def

lemma sound_fault [simp]: "sound (sys\<lparr>fault := u\<rparr>) = sound sys"
  by (simp add: ledger_defs)

lemma sound_raced [simp]: "sound (raced sys) = sound sys"
  by (simp add: raced_def)

lemma sound_spawning [simp]: "sound (sys\<lparr>spawning := x\<rparr>) = sound sys"
  by (simp add: ledger_defs)

lemma sound_rereading [simp]: "sound (sys\<lparr>rereading := x\<rparr>) = sound sys"
  by (simp add: ledger_defs)

lemma sound_joining [simp]: "sound (sys\<lparr>joining := x\<rparr>) = sound sys"
  by (simp add: ledger_defs)

text \<open>A step that changes no queue and no record, and gives no worker a task.\<close>

lemma sound_frame:
  assumes ok: "sound sys"
    and queues: "same_queues (pool sys) (pool sys') \<or>
      ((\<forall>a. queue_of sys' a = queue_of sys a) \<and> u_queue (pool sys') = u_queue (pool sys) \<and>
       (u_end (pool sys) \<longrightarrow> u_end (pool sys')))"
    and logs: "executed sys' = executed sys" "accepted sys' = accepted sys"
      "taken sys' = taken sys" "cleared sys' = cleared sys"
    and pcs: "\<And>w src f. fmlookup (workers sys') w = Some (Run src f) \<Longrightarrow>
      fmlookup (workers sys) w = Some (Run src f)"
    and hands: "\<And>a. held sys' a = held sys a"
    and nobody: "fmlookup (workers sys') No_thread = fmlookup (workers sys) No_thread"
  shows "sound sys'"
proof -
  from queues have q: "queue_of sys' a = queue_of sys a" for a
    by (auto simp: same_queues_def queue_of_def)
  from queues have g: "u_queue (pool sys') = u_queue (pool sys)"
    by (auto simp: same_queues_def)
  from queues have e: "u_end (pool sys) \<longrightarrow> u_end (pool sys')"
    by (auto simp: same_queues_def)
  have "ledger sys' a" if "a \<noteq> No_thread" for a
    using ok that by (simp add: sound_def ledger_def q hands logs executed_from_def accepted_for_def)
  moreover have "global_ledger sys'"
    using ok by (simp add: sound_def global_ledger_def g logs accepted_for_def)
  moreover have "runs_own sys'"
    using ok pcs nobody unfolding sound_def runs_own_def executed_from_def logs by metis
  moreover have "0 < cleared sys' \<longrightarrow> u_end (pool sys')"
    using ok e by (simp add: sound_def logs)
  ultimately show ?thesis
    by (simp add: sound_def)
qed

lemma sound_pool_update:
  assumes "sound sys" and "same_queues (pool sys) p"
  shows "sound (sys\<lparr>pool := p\<rparr>)"
  using assms(1)
  by (rule sound_frame) (simp_all add: assms(2) held_def)

lemma held_not_live: "\<not> live sys a \<Longrightarrow> held sys a = []"
  by (auto simp: live_def held_def split: option.splits worker.splits)

lemma sound_start_thread: "sound sys \<Longrightarrow> sound (start_thread i next sys)"
proof -
  assume ok: "sound sys"
  show ?thesis
  proof (cases "may_start sys [i]")
    case False
    then show ?thesis
      using ok by (simp add: start_thread_def)
  next
    case True
    then have idle: "held sys i = []" and proper: "i \<noteq> No_thread"
      by (simp_all add: may_start_def held_not_live)
    have "sound (sys\<lparr>workers := start [i] (workers sys)\<rparr>)"
      using ok
    proof (rule sound_frame)
      show "held (sys\<lparr>workers := start [i] (workers sys)\<rparr>) a = held sys a" for a
        using idle by (cases "a = i") (simp_all add: held_def lookup_start)
    qed (use proper in \<open>simp_all add: lookup_start split: if_splits\<close>)
    then show ?thesis
      using True by (simp add: start_thread_def)
  qed
qed

lemma sound_register: "sound sys \<Longrightarrow> sound (register i sys)"
  by (simp add: register_def sound_pool_update)

text \<open>A worker that holds no task goes to a place where it holds none.\<close>

lemma sound_moved:
  assumes ok: "sound sys" and same: "same_queues (pool sys) p"
    and idle: "\<forall>src f. fmlookup (workers sys) w \<noteq> Some (Run src f)"
    and pc: "\<forall>src f. pc \<noteq> Run src f" and worker: "w \<noteq> No_thread"
  shows "sound (set_worker w pc (sys\<lparr>pool := p\<rparr>))"
  using ok
proof (rule sound_frame)
  let ?sys = "set_worker w pc (sys\<lparr>pool := p\<rparr>)"
  show "held ?sys a = held sys a" for a
    using idle pc by (cases pc; cases "a = w") (auto simp: held_def set_worker_def split: option.splits worker.splits)
  show "fmlookup (workers sys) v = Some (Run src f)"
    if "fmlookup (workers ?sys) v = Some (Run src f)" for v src f
    using that pc by (auto simp: set_worker_def split: if_splits)
qed (use worker in \<open>simp_all add: set_worker_def same\<close>)

lemma sound_moved_same:
  assumes "sound sys" and "\<forall>src f. fmlookup (workers sys) w \<noteq> Some (Run src f)"
    and "\<forall>src f. pc \<noteq> Run src f" and "w \<noteq> No_thread"
  shows "sound (set_worker w pc sys)"
  using sound_moved [OF assms(1) same_queues_refl assms(2,3,4)] by simp

lemma sound_retire:
  assumes ok: "sound sys" and idle: "\<forall>src f. fmlookup (workers sys) w \<noteq> Some (Run src f)"
    and pc: "\<forall>src f. continue \<noteq> Run src f" and worker: "w \<noteq> No_thread"
  shows "sound (retire w continue sys)"
proof (cases "u_try_die w (pool sys)")
  case (Inl ub)
  then show ?thesis
    using ok by (simp add: retire_def)
next
  case (Inr result)
  obtain died p where result: "result = (died, p)"
    by (cases result)
  have same: "same_queues (pool sys) p"
    using Inr result by (auto intro: same_queues_try_die)
  have "sound (set_worker w (if died then Terminated else continue) (sys\<lparr>pool := p\<rparr>))"
    using ok same idle by (rule sound_moved) (simp_all add: pc worker)
  then show ?thesis
    using Inr result ok by (simp add: retire_def)
qed

lemma sound_forwarded:
  assumes ok: "sound sys" and same: "same_queues (pool sys) p"
  shows "sound (note_accepted (fst (push_affinity c f p)) c f
    (sys\<lparr>pool := snd (push_affinity c f p)\<rparr>))"
proof -
  let ?r = "fst (push_affinity c f p)" and ?p = "snd (push_affinity c f p)"
  let ?sys = "note_accepted ?r c f (sys\<lparr>pool := ?p\<rparr>)"
  have logs: "executed ?sys = executed sys" "workers ?sys = workers sys" "pool ?sys = ?p"
    "taken ?sys = taken sys" "cleared ?sys = cleared sys"
    by (simp_all add: note_accepted_def split: sum.splits)
  have own: "runs_own ?sys"
    using ok by (simp add: sound_def runs_own_def executed_from_def logs)
  from push_affinity_cases [of c f p] consider
    (queued) "?r = Inr (Future f)" "c \<noteq> No_thread" "\<not> u_end p" "u_end ?p = u_end p"
      "u_queue ?p = u_queue p"
      "\<forall>b. subscript_value (u_affinity_queues ?p) b =
         (if b = c then subscript_value (u_affinity_queues p) c @ [f]
          else subscript_value (u_affinity_queues p) b)"
    | (global) "?r = Inr (Future f)" "c = No_thread" "\<not> u_end p" "u_end ?p = u_end p"
      "u_queue ?p = u_queue p @ [f]"
      "\<forall>b. subscript_value (u_affinity_queues ?p) b = subscript_value (u_affinity_queues p) b"
    | (failed) "isl ?r" "same_queues p ?p"
    by blast
  then show ?thesis
  proof cases
    case queued
    have acc: "accepted ?sys = accepted sys @ [(c, f)]"
      using queued(1) by (simp add: note_accepted_def)
    have open': "\<not> u_end (pool sys)"
      using same queued(3) by (simp add: same_queues_def)
    with ok have fresh: "cleared sys = 0"
      by (auto simp: sound_def)
    have "ledger ?sys a" if a: "a \<noteq> No_thread" for a
    proof -
      from ok a have led: "ledger sys a"
        by (simp add: sound_def)
      with fresh have eq: "executed_from a sys @ held sys a @ queue_of sys a = accepted_for a sys"
        by (simp add: ledger_def)
      have q: "queue_of ?sys a = (if a = c then queue_of sys a @ [f] else queue_of sys a)"
        using queued(6) same by (simp add: queue_of_def logs same_queues_def)
      have h: "held ?sys a = held sys a"
        by (simp add: held_def logs)
      have e: "executed_from a ?sys = executed_from a sys"
        by (simp add: executed_from_def logs)
      have c: "accepted_for a ?sys = (if a = c then accepted_for a sys @ [f] else accepted_for a sys)"
        by (simp add: accepted_for_def acc)
      show ?thesis
        unfolding ledger_def q h e c using eq by auto
    qed
    moreover have "global_ledger ?sys"
      using ok same queued(2,5)
      by (simp add: sound_def global_ledger_def logs accepted_for_def acc same_queues_def)
    moreover have "0 < cleared ?sys \<longrightarrow> u_end (pool ?sys)"
      using fresh by (simp add: logs)
    ultimately show ?thesis
      using own by (simp add: sound_def)
  next
    case global
    have acc: "accepted ?sys = accepted sys @ [(No_thread, f)]"
      using global(1,2) by (simp add: note_accepted_def)
    have open': "\<not> u_end (pool sys)"
      using same global(3) by (simp add: same_queues_def)
    with ok have fresh: "cleared sys = 0"
      by (auto simp: sound_def)
    have "ledger ?sys a" if a: "a \<noteq> No_thread" for a
    proof -
      have "queue_of ?sys a = queue_of sys a"
        using global(6) same by (simp add: queue_of_def logs same_queues_def)
      moreover have "held ?sys a = held sys a"
        by (simp add: held_def logs)
      moreover have "executed_from a ?sys = executed_from a sys"
        by (simp add: executed_from_def logs)
      moreover have "accepted_for a ?sys = accepted_for a sys"
        using a by (simp add: accepted_for_def acc)
      ultimately show ?thesis
        using ok a by (simp add: sound_def ledger_def logs)
    qed
    moreover have "global_ledger ?sys"
    proof -
      from ok fresh have "taken sys @ u_queue (pool sys) = accepted_for No_thread sys"
        by (simp add: sound_def global_ledger_def)
      moreover have "u_queue ?p = u_queue (pool sys) @ [f]"
        using global(5) same by (simp add: same_queues_def)
      moreover have "accepted_for No_thread ?sys = accepted_for No_thread sys @ [f]"
        by (simp add: accepted_for_def acc)
      ultimately show ?thesis
        by (simp add: global_ledger_def logs)
    qed
    moreover have "0 < cleared ?sys \<longrightarrow> u_end (pool ?sys)"
      using fresh by (simp add: logs)
    ultimately show ?thesis
      using own by (simp add: sound_def)
  next
    case failed
    have acc: "accepted ?sys = accepted sys"
      using failed(1) by (auto simp: note_accepted_def isl_def)
    have both: "same_queues (pool sys) ?p"
      using same failed(2) by (simp add: same_queues_def)
    from ok show ?thesis
      by (rule sound_frame) (simp_all add: logs acc both held_def)
  qed
qed

lemma sound_push: "sound sys \<Longrightarrow> sound (act (Call_push f) sys)"
  using sound_forwarded [of sys "pool sys" No_thread f]
  by (simp add: push_affinity_def split_beta)

lemma sound_push_affinity: "sound sys \<Longrightarrow> sound (act (Call_push_affinity a f) sys)"
  using sound_forwarded [of sys "pool sys" a f]
  by (simp add: split_beta)

lemma sound_push_container: "sound sys \<Longrightarrow> sound (act (Call_push_container affinities f) sys)"
  using sound_forwarded [of sys
      "(pool sys)\<lparr>u_affinity_queues := inserted affinities (u_affinity_queues (pool sys))\<rparr>"
      "snd (fst (smallest_loop affinities (- 1, No_thread) (pool sys)))" f]
  by (simp add: push_container_forwards split_beta)

lemma sound_read_size: "sound sys \<Longrightarrow> sound (act (Read_size aff) sys)"
  by (simp add: sound_pool_update)

lemma sound_read_again: "sound sys \<Longrightarrow> sound (act (Read_again aff) sys)"
  by simp

lemma sound_read_done: "sound sys \<Longrightarrow> sound (act (Read_done aff) sys)"
  using sound_pool_update [of sys "(pool sys)\<lparr>u_affinity_queues :=
      subscript_insert (u_affinity_queues (pool sys)) aff\<rparr>"]
  by simp

lemma sound_resize: "sound sys \<Longrightarrow> sound (act (Call_resize new_size ids) sys)"
  by (simp add: sound_pool_update same_queues_resize)

lemma sound_allocate: "sound sys \<Longrightarrow> sound (act (Call_allocate_affinity insert' i) sys)"
  by (simp add: sound_pool_update same_queues_allocate sound_start_thread)

lemma sound_spawner: "sound sys \<Longrightarrow> sound (act Spawner sys)"
  by (simp add: sound_pool_update same_queues_allocate sound_start_thread sound_register
      split: option.splits spawner.splits)

lemma sound_dtor: "sound sys \<Longrightarrow> sound (act Call_dtor sys)"
proof -
  assume ok: "sound sys"
  have "sound (sys\<lparr>pool := thread_pool_dtor (pool sys)\<rparr>)"
    using ok
    by (rule sound_frame) (simp_all add: queue_of_def thread_pool_dtor_def held_def)
  then show ?thesis
    using ok by simp
qed

lemma sound_joined: "sound sys \<Longrightarrow> sound (act Joined sys)"
  by simp

lemma sound_abort: "sound sys \<Longrightarrow> sound (act Call_abort sys)"
proof -
  assume ok: "sound sys"
  let ?sys = "sys\<lparr>pool := abort (pool sys), cleared := Suc (cleared sys)\<rparr>"
  have "ledger ?sys a" if "a \<noteq> No_thread" for a
  proof -
    from ok that have "prefix (executed_from a sys @ held sys a @ queue_of sys a) (accepted_for a sys)"
      by (simp add: sound_def ledger_def)
    then have "prefix (executed_from a sys @ held sys a) (accepted_for a sys)"
      by (metis append.assoc append_prefixD)
    moreover have "queue_of ?sys a = []" "held ?sys a = held sys a"
      "executed_from a ?sys = executed_from a sys" "accepted_for a ?sys = accepted_for a sys"
      by (simp_all add: queue_of_def abort_def subscript_value_def held_def executed_from_def
          accepted_for_def)
    ultimately show ?thesis
      by (simp add: ledger_def)
  qed
  moreover have "global_ledger ?sys"
  proof -
    from ok have "prefix (taken sys @ u_queue (pool sys)) (accepted_for No_thread sys)"
      by (simp add: sound_def global_ledger_def)
    then have "prefix (taken sys) (accepted_for No_thread sys)"
      by (rule append_prefixD)
    then show ?thesis
      by (simp add: global_ledger_def abort_def accepted_for_def)
  qed
  moreover have "runs_own ?sys"
    using ok by (simp add: sound_def runs_own_def executed_from_def)
  ultimately have "sound ?sys"
    by (simp add: sound_def abort_def)
  then show ?thesis
    using ok by simp
qed

lemma sound_dequeue_own:
  assumes ok: "sound sys" and idle: "\<forall>src f. fmlookup (workers sys) w \<noteq> Some (Run src f)"
    and busy: "subscript_value (u_affinity_queues (pool sys)) w \<noteq> []"
    and worker: "w \<noteq> No_thread"
  shows "sound (set_worker w (Run w (hd (subscript_value (u_affinity_queues (pool sys)) w)))
    (sys\<lparr>pool := (pool sys)\<lparr>u_affinity_queues :=
       fmupd w (tl (subscript_value (u_affinity_queues (pool sys)) w))
         (u_affinity_queues (pool sys))\<rparr>\<rparr>))"
    (is "sound ?sys")
proof -
  let ?q = "subscript_value (u_affinity_queues (pool sys)) w"
  have idle': "held sys w = []"
    using idle by (auto simp: held_def split: option.splits worker.splits)
  have "ledger ?sys a" if a: "a \<noteq> No_thread" for a
  proof -
    have same: "executed_from a ?sys @ held ?sys a @ queue_of ?sys a =
      executed_from a sys @ held sys a @ queue_of sys a"
    proof (cases "a = w")
      case True
      have "held ?sys w = [hd ?q]"
        by (simp add: held_def set_worker_def)
      moreover have "queue_of ?sys w = tl ?q"
        by (simp add: queue_of_def set_worker_def subscript_value_def)
      ultimately have "held ?sys w @ queue_of ?sys w = hd ?q # tl ?q"
        by simp
      also have "\<dots> = held sys w @ queue_of sys w"
        using busy idle' by (simp add: queue_of_def)
      finally show ?thesis
        using True by (simp add: executed_from_def set_worker_def)
    next
      case False
      then have "held ?sys a = held sys a"
        by (simp add: held_def set_worker_def)
      moreover have "queue_of ?sys a = queue_of sys a"
        using False by (simp add: queue_of_def set_worker_def subscript_value_def)
      ultimately show ?thesis
        by (simp add: executed_from_def set_worker_def)
    qed
    from ok a have "ledger sys a"
      by (simp add: sound_def)
    then show ?thesis
      unfolding ledger_def same by (simp add: accepted_for_def set_worker_def)
  qed
  moreover have "global_ledger ?sys"
    using ok by (simp add: sound_def global_ledger_def accepted_for_def set_worker_def)
  moreover have "runs_own ?sys"
    using ok worker
    by (auto simp: sound_def runs_own_def executed_from_def set_worker_def own_source_def)
  moreover have "0 < cleared ?sys \<longrightarrow> u_end (pool ?sys)"
    using ok by (simp add: sound_def set_worker_def)
  ultimately show ?thesis
    by (simp add: sound_def)
qed

lemma sound_dequeue_global:
  assumes ok: "sound sys" and idle: "\<forall>src f. fmlookup (workers sys) w \<noteq> Some (Run src f)"
    and busy: "u_queue (pool sys) \<noteq> []" and worker: "w \<noteq> No_thread"
  shows "sound (set_worker w (Run No_thread (hd (u_queue (pool sys))))
    (sys\<lparr>pool := (pool sys)\<lparr>u_queue := tl (u_queue (pool sys))\<rparr>,
         taken := taken sys @ [hd (u_queue (pool sys))]\<rparr>))"
    (is "sound ?sys")
proof -
  have idle': "held sys w = []"
    using idle by (auto simp: held_def split: option.splits worker.splits)
  have "ledger ?sys a" if a: "a \<noteq> No_thread" for a
  proof -
    have "held ?sys a = held sys a"
      using idle' a by (cases "a = w") (simp_all add: held_def set_worker_def)
    moreover have "queue_of ?sys a = queue_of sys a"
      by (simp add: queue_of_def set_worker_def)
    moreover from ok a have "ledger sys a"
      by (simp add: sound_def)
    ultimately show ?thesis
      by (simp add: ledger_def executed_from_def accepted_for_def set_worker_def)
  qed
  moreover have "global_ledger ?sys"
  proof -
    have "taken ?sys @ u_queue (pool ?sys) = taken sys @ u_queue (pool sys)"
      using busy by (simp add: set_worker_def)
    then show ?thesis
      using ok unfolding sound_def global_ledger_def
      by (simp add: accepted_for_def set_worker_def)
  qed
  moreover have "runs_own ?sys"
    using ok worker
    by (auto simp: sound_def runs_own_def executed_from_def set_worker_def own_source_def)
  moreover have "0 < cleared ?sys \<longrightarrow> u_end (pool ?sys)"
    using ok by (simp add: sound_def set_worker_def)
  ultimately show ?thesis
    by (simp add: sound_def)
qed

lemma sound_run:
  assumes ok: "sound sys" and at: "fmlookup (workers sys) w = Some (Run src f)"
  shows "sound (set_worker w Loop_head (sys\<lparr>executed := executed sys @ [(w, src, f)]\<rparr>))"
    (is "sound ?sys")
proof -
  from ok at have own: "own_source w src" and from_global: "src = No_thread \<longrightarrow> f \<in> set (taken sys)"
    and worker: "w \<noteq> No_thread"
    by (auto simp: sound_def runs_own_def)
  have "ledger ?sys a" if a: "a \<noteq> No_thread" for a
  proof -
    have same: "executed_from a ?sys @ held ?sys a @ queue_of ?sys a =
      executed_from a sys @ held sys a @ queue_of sys a"
    proof (cases "src = a")
      case True
      with own a have "w = a"
        by (auto simp: own_source_def)
      then show ?thesis
        using True at
        by (simp add: executed_from_def held_def queue_of_def set_worker_def)
    next
      case False
      then show ?thesis
        using at by (auto simp: executed_from_def held_def queue_of_def set_worker_def)
    qed
    from ok a have "ledger sys a"
      by (simp add: sound_def)
    then show ?thesis
      unfolding ledger_def same by (simp add: accepted_for_def set_worker_def)
  qed
  moreover have "global_ledger ?sys"
    using ok by (simp add: sound_def global_ledger_def accepted_for_def set_worker_def)
  moreover have "runs_own ?sys"
    using ok own from_global worker
    by (auto simp: sound_def runs_own_def executed_from_def set_worker_def)
  moreover have "0 < cleared ?sys \<longrightarrow> u_end (pool ?sys)"
    using ok by (simp add: sound_def set_worker_def)
  ultimately show ?thesis
    by (simp add: sound_def)
qed

lemma sound_loop:
  assumes ok: "sound sys"
  shows "sound (u_loop w sys)"
proof (cases "fmlookup (workers sys) w")
  case None
  then show ?thesis
    using ok by (simp add: u_loop_def)
next
  case (Some pc)
  with ok have worker: "w \<noteq> No_thread"
    by (auto simp: sound_def runs_own_def)
  show ?thesis
  proof (cases pc)
    case Loop_head
    then show ?thesis
      using ok Some worker by (simp add: u_loop_def sound_moved_same)
  next
    case Test_threads
    then show ?thesis
      using ok Some worker by (simp add: u_loop_def sound_moved_same)
  next
    case Try_die
    then show ?thesis
      using ok Some worker by (simp add: u_loop_def sound_retire)
  next
    case Get_queue
    then show ?thesis
      using ok Some worker by (simp add: u_loop_def sound_moved_same)
  next
    case Binding
    then show ?thesis
      using ok Some worker by (simp add: u_loop_def sound_moved)
  next
    case (Wait c)
    then show ?thesis
      using ok Some worker
      by (simp add: u_loop_def Let_def sound_retire sound_moved_same
          sound_dequeue_own sound_dequeue_global)
  next
    case (Run src f)
    then show ?thesis
      using ok Some by (simp add: u_loop_def sound_run)
  next
    case Terminated
    then show ?thesis
      using ok Some by (simp add: u_loop_def)
  qed
qed

lemma sound_act: "sound sys \<Longrightarrow> sound (act ev sys)"
proof (cases ev)
  case (Worker w)
  then show "sound sys \<Longrightarrow> sound (act ev sys)"
    by (simp add: sound_loop)
qed (simp_all only: sound_push sound_push_affinity sound_push_container sound_read_size
    sound_read_again sound_read_done sound_resize sound_allocate sound_spawner sound_abort
    sound_dtor sound_joined)

lemma sound_step: "sound sys \<Longrightarrow> sound (step ev sys)"
  by (simp add: step_def sound_act)

lemma sound_run_all: "sound sys \<Longrightarrow> sound (run evs sys)"
  by (induction evs arbitrary: sys) (simp_all add: sound_step)

lemma sound_constructing: "sound (constructing n ids)"
  by (simp add: constructing_def ledger_defs initial_pool_def subscript_value_def)

lemma sound_new_system:
  assumes "distinct (stake (unat n) ids)" and "No_thread \<notin> set (stake (unat n) ids)"
  shows "sound (new_system n ids)"
proof -
  have "sound (run (replicate (2 * unat n + 1) Spawner) (constructing n ids :: 'a system))"
    using sound_constructing by (rule sound_run_all)
  then show ?thesis
    unfolding constructor_returns [OF assms] .
qed

lemma push_affinity_only_there:
  assumes "a \<noteq> No_thread" and "fst (push_affinity a f p) = Inr r"
  shows "u_queue (snd (push_affinity a f p)) = u_queue p \<and>
    fmlookup (u_affinity_queues (snd (push_affinity a f p))) a =
      Some (subscript_value (u_affinity_queues p) a @ [f]) \<and>
    (\<forall>b. b \<noteq> a \<longrightarrow>
       fmlookup (u_affinity_queues (snd (push_affinity a f p))) b =
       fmlookup (u_affinity_queues p) b)"
proof -
  from assms have there: "a |\<in>| fmdom (u_affinity_queues p)" and "\<not> u_end p"
    by (auto simp: push_affinity_def Let_def split: if_splits)
  then show ?thesis
    using assms(1) by (simp add: push_affinity_def Let_def subscript_insert_present)
qed

text \<open>
  In every run that starts with the call of the constructor, whatever the calls and
  however the threads interleave, up to the first undefined behaviour, where the run
  stops: the tasks run from the queue of an affinity token are the first of the tasks
  accepted for that token, in the order of their acceptance; as long as \<^verbatim>\<open>abort\<close> has
  not run, the tasks accepted for the token and not yet run are in the hands of that
  worker or in its queue, in order, and the tasks accepted for the global queue are
  those taken off it and those waiting in it; a worker runs tasks of its own queue and
  of the global queue only, and what it runs as a task of the global queue was taken off
  the global queue. The affinity push that succeeds appends the task to the queue of its
  token and changes no other queue.
\<close>

lemma affinity_tasks_in_order:
  assumes "a \<noteq> No_thread"
  shows "prefix (executed_from a (run evs (constructing n ids)))
           (accepted_for a (run evs (constructing n ids))) \<and>
         (cleared (run evs (constructing n ids)) = 0 \<longrightarrow>
            executed_from a (run evs (constructing n ids)) @
            held (run evs (constructing n ids)) a @
            queue_of (run evs (constructing n ids)) a =
              accepted_for a (run evs (constructing n ids))) \<and>
         prefix (taken (run evs (constructing n ids)))
           (accepted_for No_thread (run evs (constructing n ids))) \<and>
         (cleared (run evs (constructing n ids)) = 0 \<longrightarrow>
            taken (run evs (constructing n ids)) @ u_queue (pool (run evs (constructing n ids))) =
              accepted_for No_thread (run evs (constructing n ids))) \<and>
         list_all (\<lambda>(w, src, f). own_source w src) (executed (run evs (constructing n ids))) \<and>
         set (executed_from No_thread (run evs (constructing n ids))) \<subseteq>
           set (taken (run evs (constructing n ids)))"
proof -
  let ?sys = "run evs (constructing n ids) :: 'a system"
  have ok: "sound ?sys"
    using sound_constructing by (rule sound_run_all)
  with assms have led: "ledger ?sys a" and own: "runs_own ?sys" and global: "global_ledger ?sys"
    by (simp_all add: sound_def)
  from led have "prefix (executed_from a ?sys @ held ?sys a @ queue_of ?sys a) (accepted_for a ?sys)"
    by (simp add: ledger_def)
  then have "prefix (executed_from a ?sys) (accepted_for a ?sys)"
    by (rule append_prefixD)
  moreover have "cleared ?sys = 0 \<longrightarrow>
      executed_from a ?sys @ held ?sys a @ queue_of ?sys a = accepted_for a ?sys"
    using led unfolding ledger_def by auto
  moreover have "prefix (taken ?sys) (accepted_for No_thread ?sys)"
    using global unfolding global_ledger_def by (blast intro: append_prefixD)
  moreover have "cleared ?sys = 0 \<longrightarrow>
      taken ?sys @ u_queue (pool ?sys) = accepted_for No_thread ?sys"
    using global unfolding global_ledger_def by auto
  moreover have "list_all (\<lambda>(w, src, f). own_source w src) (executed ?sys)"
    and "set (executed_from No_thread ?sys) \<subseteq> set (taken ?sys)"
    using own by (simp_all add: runs_own_def)
  ultimately show ?thesis
    by blast
qed

lemma new_system_one:
  "(new_system 1 (ids_from 1) :: string system) =
     \<lparr>pool = u_spawn (Thread 1) initial_pool, workers = fmupd (Thread 1) Loop_head fmempty,
      spawning = None, rereading = [], joining = 0, cleared = 0, accepted = [], taken = [],
      executed = [], fault = None\<rparr>"
  by (simp add: new_system_def thread_pool_ctor_def start_def)

lemma new_system_two:
  "(new_system 2 (ids_from 1) :: string system) =
     \<lparr>pool = u_spawn (Thread 2) (u_spawn (Thread 1) initial_pool),
      workers = fmupd (Thread 2) Loop_head (fmupd (Thread 1) Loop_head fmempty),
      spawning = None, rereading = [], joining = 0, cleared = 0, accepted = [], taken = [],
      executed = [], fault = None\<rparr>"
proof -
  have two: "unat (2 :: size_t) = 2"
    by simp
  have "stake 2 (ids_from 1) = [Thread 1, Thread 2]"
    by (simp add: numeral_2_eq_2)
  then have started: "stake (unat (2 :: size_t)) (ids_from 1) = [Thread 1, Thread 2]"
    by (simp only: two)
  show ?thesis
    unfolding new_system_def thread_pool_ctor_def started
    by (simp add: start_def numeral_2_eq_2)
qed

text \<open>An example: three tasks, two of them for the worker, run by the worker in order.\<close>

lemma affinity_tasks_in_order_example:
  "executed
     (run [Call_push_affinity (Thread 1) ''a'', Call_push ''c'',
           Call_push_affinity (Thread 1) ''b'',
           Worker (Thread 1), Worker (Thread 1), Worker (Thread 1), Worker (Thread 1),
           Worker (Thread 1), Worker (Thread 1), Worker (Thread 1), Worker (Thread 1),
           Worker (Thread 1), Worker (Thread 1), Worker (Thread 1), Worker (Thread 1),
           Worker (Thread 1), Worker (Thread 1), Worker (Thread 1), Worker (Thread 1),
           Worker (Thread 1), Worker (Thread 1)]
        (new_system 1 (ids_from 1))) =
     [(Thread 1, Thread 1, ''a''), (Thread 1, Thread 1, ''b''), (Thread 1, No_thread, ''c'')]"
  unfolding new_system_one by (simp add: pool_defs run_defs)

text \<open>
  Claim C5, at inputs where the code departs from it. The order holds in the runs without
  undefined behaviour, and the code reaches undefined behaviour while the pool accepts
  work. In a pool of one worker, \<open>Thread 1\<close>, the task \<open>''a''\<close> is accepted for
  \<open>Thread 1\<close>; the worker comes to line 283 and is inside \<^verbatim>\<open>operator[]\<close>, without the
  lock, when another thread pushes \<open>''b''\<close> for \<open>Thread 1\<close> and accesses the same map in
  lines 168 to 173: a data race. In a pool of two workers, both identities are handed
  out by \<^verbatim>\<open>allocate_affinity\<close>, \<open>''a''\<close> is accepted for \<open>Thread 1\<close> and \<^verbatim>\<open>resize(1)\<close>
  issues a permit; the idle worker \<open>Thread 2\<close> consumes it and calls \<^verbatim>\<open>erase\<close> with the
  end iterator of \<^verbatim>\<open>_affinities\<close> (line 342). In both runs the pool is open and nothing
  is known of what becomes of \<open>''a''\<close> and of the tasks pushed after it.
\<close>

theorem affinity_order_undefined:
  "accepted (run [Call_push_affinity (Thread 1) ''a'', Worker (Thread 1), Worker (Thread 1),
       Worker (Thread 1)] (new_system 1 (ids_from 1))) = [(Thread 1, ''a'')] \<and>
   fmlookup (workers (run [Call_push_affinity (Thread 1) ''a'', Worker (Thread 1),
       Worker (Thread 1), Worker (Thread 1)] (new_system 1 (ids_from 1)))) (Thread 1) =
     Some Binding \<and>
   \<not> u_end (pool (run [Call_push_affinity (Thread 1) ''a'', Worker (Thread 1),
       Worker (Thread 1), Worker (Thread 1)] (new_system 1 (ids_from 1)))) \<and>
   fault (run [Call_push_affinity (Thread 1) ''a'', Worker (Thread 1), Worker (Thread 1),
       Worker (Thread 1)] (new_system 1 (ids_from 1))) = None \<and>
   fault (run [Call_push_affinity (Thread 1) ''a'', Worker (Thread 1), Worker (Thread 1),
       Worker (Thread 1), Call_push_affinity (Thread 1) ''b'']
     (new_system 1 (ids_from 1))) = Some Data_race \<and>
   accepted (run [Call_allocate_affinity False (Thread 9), Call_allocate_affinity False (Thread 9),
       Call_push_affinity (Thread 1) ''a'', Call_resize 1 (ids_from 3), Worker (Thread 2)]
     (new_system 2 (ids_from 1))) = [(Thread 1, ''a'')] \<and>
   \<not> u_end (pool (run [Call_allocate_affinity False (Thread 9),
       Call_allocate_affinity False (Thread 9), Call_push_affinity (Thread 1) ''a'',
       Call_resize 1 (ids_from 3), Worker (Thread 2)] (new_system 2 (ids_from 1)))) \<and>
   fault (run [Call_allocate_affinity False (Thread 9), Call_allocate_affinity False (Thread 9),
       Call_push_affinity (Thread 1) ''a'', Call_resize 1 (ids_from 3), Worker (Thread 2)]
     (new_system 2 (ids_from 1))) = None \<and>
   fault (run [Call_allocate_affinity False (Thread 9), Call_allocate_affinity False (Thread 9),
       Call_push_affinity (Thread 1) ''a'', Call_resize 1 (ids_from 3), Worker (Thread 2),
       Worker (Thread 2)]
     (new_system 2 (ids_from 1))) = Some Erase_end_affinities"
  unfolding new_system_one new_system_two by (simp add: pool_defs run_defs)

subsection \<open>Abort\<close>

lemma abort_effect:
  "u_queue (abort s) = [] \<and> u_affinity_queues (abort s) = fmempty \<and> u_end (abort s)"
  by (simp add: abort_def)

lemma closed_raced [simp]: "pool (raced sys) = pool sys"
  by (simp add: raced_def)

lemma closed_start_thread [simp]: "pool (start_thread i next sys) = pool sys"
  by (simp add: start_thread_def)

lemma closed_register: "u_end (pool sys) \<Longrightarrow> u_end (pool (register i sys))"
  by (simp add: register_def u_spawn_def)

lemma closed_retire: "u_end (pool sys) \<Longrightarrow> u_end (pool (retire w pc sys))"
proof (cases "u_try_die w (pool sys)")
  case (Inl ub)
  then show "u_end (pool sys) \<Longrightarrow> ?thesis"
    by (simp add: retire_def)
next
  case (Inr result)
  then have "same_queues (pool sys) (snd result)"
    by (cases result) (auto intro: same_queues_try_die)
  then show "u_end (pool sys) \<Longrightarrow> ?thesis"
    using Inr by (simp add: retire_def set_worker_def same_queues_def split_beta)
qed

lemma closed_act: "u_end (pool sys) \<Longrightarrow> u_end (pool (act ev sys))"
proof (cases ev)
  case (Call_push f)
  then show "u_end (pool sys) \<Longrightarrow> u_end (pool (act ev sys))"
    by (simp add: split_beta note_accepted_def push_closed_pool split: sum.splits)
next
  case (Call_push_affinity a f)
  then show "u_end (pool sys) \<Longrightarrow> u_end (pool (act ev sys))"
    by (simp add: split_beta note_accepted_def push_affinity_closed_pool split: sum.splits)
next
  case (Call_push_container affinities f)
  then show "u_end (pool sys) \<Longrightarrow> u_end (pool (act ev sys))"
    by (simp add: split_beta note_accepted_def push_container_forwards push_affinity_closed_pool
        split: sum.splits)
next
  case (Read_size a)
  then show "u_end (pool sys) \<Longrightarrow> u_end (pool (act ev sys))"
    by simp
next
  case (Read_again a)
  then show "u_end (pool sys) \<Longrightarrow> u_end (pool (act ev sys))"
    by simp
next
  case (Read_done a)
  then show "u_end (pool sys) \<Longrightarrow> u_end (pool (act ev sys))"
    by simp
next
  case (Call_resize new_size ids)
  then show "u_end (pool sys) \<Longrightarrow> u_end (pool (act ev sys))"
    using same_queues_resize [of "pool sys" new_size ids] by (simp add: same_queues_def)
next
  case (Call_allocate_affinity b i)
  then show "u_end (pool sys) \<Longrightarrow> u_end (pool (act ev sys))"
    using same_queues_allocate [of "pool sys" b i] by (simp add: same_queues_def)
next
  case Spawner
  then show "u_end (pool sys) \<Longrightarrow> u_end (pool (act ev sys))"
    using same_queues_allocate [of "pool sys" True]
    by (simp add: same_queues_def closed_register split: option.splits spawner.splits)
next
  case Call_abort
  then show "u_end (pool sys) \<Longrightarrow> u_end (pool (act ev sys))"
    by (simp add: abort_def)
next
  case Call_dtor
  then show "u_end (pool sys) \<Longrightarrow> u_end (pool (act ev sys))"
    by (simp add: thread_pool_dtor_def)
next
  case Joined
  then show "u_end (pool sys) \<Longrightarrow> u_end (pool (act ev sys))"
    by simp
next
  case (Worker w)
  assume "u_end (pool sys)"
  then show "u_end (pool (act ev sys))"
    using Worker closed_retire [of sys]
    by (simp add: u_loop_def set_worker_def Let_def split: option.splits worker.splits)
qed

lemma shutdown_is_final: "u_end (pool sys) \<Longrightarrow> u_end (pool (run evs sys))"
  by (induction evs arbitrary: sys) (simp_all add: step_def closed_act)

text \<open>
  In the runs of this model, which stop at undefined behaviour, no task is run after
  \<^verbatim>\<open>abort\<close> when no worker holds one at that moment: every push fails, and a worker
  that binds \<^verbatim>\<open>this_queue\<close> after the abort finds its queue and the global queue empty
  and returns.
\<close>

lemma drained_fault [simp]: "drained (sys\<lparr>fault := u\<rparr>) = drained sys"
  by (simp add: drained_def queue_of_def)

lemma drained_raced [simp]: "drained (raced sys) = drained sys"
  by (simp add: raced_def)

lemma executed_raced [simp]: "executed (raced sys) = executed sys"
  by (simp add: raced_def)

lemma drained_spawning [simp]: "drained (sys\<lparr>spawning := x\<rparr>) = drained sys"
  by (simp add: drained_def queue_of_def)

lemma drained_rereading [simp]: "drained (sys\<lparr>rereading := x\<rparr>) = drained sys"
  by (simp add: drained_def queue_of_def)

lemma drained_joining [simp]: "drained (sys\<lparr>joining := x\<rparr>) = drained sys"
  by (simp add: drained_def queue_of_def)

lemma drained_pool:
  assumes "drained sys" and "same_queues (pool sys) p"
  shows "drained (sys\<lparr>pool := p\<rparr>)"
  using assms by (simp add: drained_def queue_of_def same_queues_def)

lemma drained_set_worker:
  assumes "drained sys" and "\<forall>src f. pc \<noteq> Run src f"
  shows "drained (set_worker w pc sys)"
  using assms by (simp add: drained_def queue_of_def set_worker_def)

lemma drained_start_thread:
  "drained sys \<Longrightarrow>
   drained (start_thread i next sys) \<and> executed (start_thread i next sys) = executed sys"
  by (simp add: start_thread_def drained_def queue_of_def lookup_start)

lemma drained_register:
  "drained sys \<Longrightarrow> drained (register i sys) \<and> executed (register i sys) = executed sys"
  by (simp add: register_def drained_pool)

lemma drained_retire:
  assumes "drained sys" and "\<forall>src f. pc \<noteq> Run src f"
  shows "drained (retire w pc sys) \<and> executed (retire w pc sys) = executed sys"
proof (cases "u_try_die w (pool sys)")
  case (Inl ub)
  then show ?thesis
    using assms(1) by (simp add: retire_def)
next
  case (Inr result)
  obtain died p where result: "result = (died, p)"
    by (cases result)
  have "same_queues (pool sys) p"
    using Inr result by (auto intro: same_queues_try_die)
  with assms(1) have "drained (sys\<lparr>pool := p\<rparr>)"
    by (rule drained_pool)
  then have "drained (set_worker w (if died then Terminated else pc) (sys\<lparr>pool := p\<rparr>))"
    by (rule drained_set_worker) (simp add: assms(2))
  then show ?thesis
    using Inr result assms(1) by (simp add: retire_def set_worker_def)
qed

lemma drained_closed_push:
  assumes "drained sys" and "same_queues (pool sys) p"
  shows "drained (note_accepted (fst (push_affinity c f p)) c f
      (sys\<lparr>pool := snd (push_affinity c f p)\<rparr>)) \<and>
    executed (note_accepted (fst (push_affinity c f p)) c f
      (sys\<lparr>pool := snd (push_affinity c f p)\<rparr>)) = executed sys"
proof -
  from assms have "u_end p"
    by (simp add: drained_def same_queues_def)
  then have "push_affinity c f p = (Inl Thread_pool_closed, p\<lparr>tasks_made := Suc (tasks_made p)\<rparr>)"
    by (rule push_affinity_closed_pool)
  then show ?thesis
    using assms by (simp add: note_accepted_def drained_def queue_of_def same_queues_def)
qed

lemma drained_act:
  assumes "drained sys"
  shows "drained (act ev sys) \<and> executed (act ev sys) = executed sys"
proof (cases ev)
  case (Call_push f)
  then show ?thesis
    using drained_closed_push [OF assms same_queues_refl, of No_thread f] assms
    by (simp add: push_affinity_def split_beta)
next
  case (Call_push_affinity a f)
  then show ?thesis
    using drained_closed_push [OF assms same_queues_refl, of a f] assms
    by (simp add: split_beta)
next
  case (Call_push_container affinities f)
  have "same_queues (pool sys)
      ((pool sys)\<lparr>u_affinity_queues := inserted affinities (u_affinity_queues (pool sys))\<rparr>)"
    by simp
  from drained_closed_push [OF assms this, of "snd (fst (smallest_loop affinities (- 1, No_thread) (pool sys)))" f]
  show ?thesis
    using Call_push_container assms by (simp add: push_container_forwards split_beta)
next
  case (Read_size a)
  then show ?thesis
    using assms by (simp add: drained_pool)
next
  case (Read_again a)
  then show ?thesis
    using assms by simp
next
  case (Read_done a)
  then show ?thesis
    using assms drained_pool [OF assms, of "(pool sys)\<lparr>u_affinity_queues :=
      subscript_insert (u_affinity_queues (pool sys)) a\<rparr>"]
    by simp
next
  case (Call_resize new_size ids)
  then show ?thesis
    using assms by (simp add: drained_pool same_queues_resize)
next
  case (Call_allocate_affinity b i)
  then show ?thesis
    using assms by (simp add: drained_pool same_queues_allocate drained_start_thread)
next
  case Spawner
  then show ?thesis
    using assms
    by (simp add: drained_pool same_queues_allocate drained_start_thread drained_register
        split: option.splits spawner.splits)
next
  case Call_abort
  have "drained (sys\<lparr>pool := abort (pool sys), cleared := Suc (cleared sys)\<rparr>)"
    using assms by (simp add: drained_def queue_of_def abort_def subscript_value_def)
  then show ?thesis
    using Call_abort assms by simp
next
  case Call_dtor
  then show ?thesis
    using assms by (simp add: drained_def queue_of_def thread_pool_dtor_def)
next
  case Joined
  then show ?thesis
    using assms by simp
next
  case (Worker w)
  show ?thesis
  proof (cases "fmlookup (workers sys) w")
    case None
    then show ?thesis
      using assms Worker by (simp add: u_loop_def)
  next
    case (Some pc)
    show ?thesis
    proof (cases pc)
      case Loop_head
      then show ?thesis
        using assms Worker Some by (simp add: u_loop_def drained_set_worker) (simp add: set_worker_def)
    next
      case Test_threads
      then show ?thesis
        using assms Worker Some by (simp add: u_loop_def drained_set_worker) (simp add: set_worker_def)
    next
      case Try_die
      then show ?thesis
        using assms Worker Some drained_retire [of sys Get_queue w] by (simp add: u_loop_def)
    next
      case Get_queue
      then show ?thesis
        using assms Worker Some by (simp add: u_loop_def drained_set_worker) (simp add: set_worker_def)
    next
      case Binding
      have "drained (sys\<lparr>pool := (pool sys)\<lparr>u_affinity_queues :=
          subscript_insert (u_affinity_queues (pool sys)) w\<rparr>\<rparr>)"
        using assms by (rule drained_pool) simp
      then have "drained (set_worker w (Wait (cleared sys)) (sys\<lparr>pool := (pool sys)\<lparr>u_affinity_queues :=
          subscript_insert (u_affinity_queues (pool sys)) w\<rparr>\<rparr>))"
        by (rule drained_set_worker) simp
      then show ?thesis
        using Worker Some Binding by (simp add: u_loop_def) (simp add: set_worker_def)
    next
      case (Wait c)
      have "u_end (pool sys)" "u_queue (pool sys) = []"
        "subscript_value (u_affinity_queues (pool sys)) w = []"
        using assms by (simp_all add: drained_def queue_of_def)
      moreover have "drained (set_worker w Terminated sys)"
        using assms by (rule drained_set_worker) simp
      ultimately show ?thesis
        using Worker Some Wait assms by (simp add: u_loop_def Let_def) (simp add: set_worker_def)
    next
      case (Run src f)
      then show ?thesis
        using assms Some by (simp add: drained_def)
    next
      case Terminated
      then show ?thesis
        using assms Worker Some by (simp add: u_loop_def)
    qed
  qed
qed

lemma drained_run:
  "drained sys \<Longrightarrow> drained (run evs sys) \<and> executed (run evs sys) = executed sys"
proof (induction evs arbitrary: sys)
  case Nil
  then show ?case by simp
next
  case (Cons ev evs)
  from drained_act [OF Cons.prems, of ev]
  have "drained (step ev sys)" and "executed (step ev sys) = executed sys"
    using Cons.prems by (simp_all add: step_def)
  with Cons.IH [of "step ev sys"] show ?case
    by simp
qed

lemma abort_discards:
  assumes "\<forall>w src f. fmlookup (workers sys) w \<noteq> Some (Run src f)"
    and "callable sys" and "\<not> queues_busy sys No_thread"
  shows "executed (run evs (act Call_abort sys)) = executed sys \<and>
    u_end (pool (run evs (act Call_abort sys)))"
proof -
  have "drained (act Call_abort sys)"
    using assms by (simp add: drained_def queue_of_def abort_def subscript_value_def)
  from drained_run [OF this, of evs] show ?thesis
    using assms by (simp add: drained_def)
qed

text \<open>
  Claim C6, at an input where the code departs from it. A pool of one worker. After four
  steps the worker has bound \<^verbatim>\<open>this_queue\<close> at line 283; it stands at the test of line
  287, before the critical section or asleep in \<^verbatim>\<open>_cond.wait\<close>. A task is pushed: it
  is queued and no task is running. \<^verbatim>\<open>abort\<close> runs before the worker has the lock
  again, and line 107 destroys the queue \<^verbatim>\<open>this_queue\<close> refers to. The worker then
  leaves the inner loop, \<^verbatim>\<open>_end\<close> being set, and line 297 calls \<^verbatim>\<open>this_queue.empty()\<close>
  on the destroyed queue.
\<close>

theorem abort_with_sleeping_worker:
  "fmlookup (workers (run [Worker (Thread 1), Worker (Thread 1), Worker (Thread 1),
       Worker (Thread 1), Call_push ''job'']
     (new_system 1 (ids_from 1)))) (Thread 1) = Some (Wait 0) \<and>
   u_queue (pool (run [Worker (Thread 1), Worker (Thread 1), Worker (Thread 1),
       Worker (Thread 1), Call_push ''job'']
     (new_system 1 (ids_from 1)))) = [''job''] \<and>
   fault (run [Worker (Thread 1), Worker (Thread 1), Worker (Thread 1),
       Worker (Thread 1), Call_push ''job'', Call_abort]
     (new_system 1 (ids_from 1))) = None \<and>
   fault (run [Worker (Thread 1), Worker (Thread 1), Worker (Thread 1),
       Worker (Thread 1), Call_push ''job'', Call_abort, Worker (Thread 1)]
     (new_system 1 (ids_from 1))) = Some Dangling_queue"
  unfolding new_system_one by (simp add: pool_defs run_defs)

end
